theory Spec2Isabelle
  imports Main "HOL-Library.Word"
begin

unbundle bit_operations_syntax

section \<open>The automaton's data\<close>

text \<open>
  The program is \<^verbatim>\<open>automata.c\<close>: a one-dimensional nearest-neighbour cellular automaton
  whose rows are packed into 64-bit words. \<^verbatim>\<open>uint64_t\<close> is \<open>64 word\<close>, \<^verbatim>\<open>uint8_t\<close> is
  \<open>8 word\<close>, a C \<^verbatim>\<open>int\<close> that only ever holds small values is \<open>int\<close>, and \<^verbatim>\<open>size_t\<close> is
  \<open>nat\<close>. Bits are numbered as C numbers them: bit 0 is the least-significant bit and
  bit 63 the most-significant one (the leftmost cell when a row is drawn).
\<close>

type_synonym u64 = "64 word"
type_synonym u8 = "8 word"

subsection \<open>The macro \<^verbatim>\<open>BIT_TO_MAX\<close>\<close>

text \<open>
  \<^verbatim>\<open>#define BIT_TO_MAX(b, n) (((b >> n) & 1) * ~0UL)\<close>: all ones when bit \<open>n\<close> of \<open>b\<close> is set,
  zero otherwise. In \<^verbatim>\<open>ca1d_rule_apply\<close> the argument \<open>b\<close> is the rule byte or the loop
  counter, both promoted to \<^verbatim>\<open>int\<close>; the product with \<^verbatim>\<open>~0UL\<close> is taken in 64 bits.
\<close>

definition BIT_TO_MAX :: "int \<Rightarrow> nat \<Rightarrow> u64" where
  "BIT_TO_MAX b n = of_int (drop_bit n b AND 1) * NOT 0"

subsection \<open>\<^verbatim>\<open>pop_count\<close>\<close>

text \<open>The table \<^verbatim>\<open>B[6]\<close> of magic numbers and the loop of six mask-and-add steps.\<close>

definition pop_count_B :: "u64 list" where
  "pop_count_B =
     [0x5555555555555555, 0x3333333333333333, 0x0f0f0f0f0f0f0f0f,
      0x00ff00ff00ff00ff, 0x0000ffff0000ffff, 0x00000000ffffffff]"

text \<open>One pass of the loop body: \<^verbatim>\<open>ret = ((ret >> (1 << i)) & B[i]) + (ret & B[i])\<close>.\<close>

definition pop_count_step :: "nat \<Rightarrow> u64 \<Rightarrow> u64" where
  "pop_count_step i ret =
     (drop_bit (push_bit i 1) ret AND pop_count_B ! i) + (ret AND pop_count_B ! i)"

text \<open>The result is returned as \<^verbatim>\<open>uint8_t\<close>, so it is truncated to eight bits.\<close>

definition pop_count :: "u64 \<Rightarrow> u8" where
  "pop_count bit_field = ucast (fold pop_count_step [0..<6] bit_field)"

text \<open>The number of 1 bits of a word, counted one position at a time.\<close>

definition count_ones :: "u64 \<Rightarrow> nat" where
  "count_ones w = length (filter (bit w) [0..<64])"

subsection \<open>\<^verbatim>\<open>ca1d_rule_apply\<close>\<close>

text \<open>
  The two shifted neighbour words of the function body:
  \<^verbatim>\<open>l = (c >> 1) ^ (c_prev << 63)\<close> and \<^verbatim>\<open>r = (c << 1) ^ (c_next >> 63)\<close>.
\<close>

definition ca1d_l :: "u64 \<Rightarrow> u64 \<Rightarrow> u64" where
  "ca1d_l c_prev c = drop_bit 1 c XOR push_bit 63 c_prev"

definition ca1d_r :: "u64 \<Rightarrow> u64 \<Rightarrow> u64" where
  "ca1d_r c c_next = push_bit 1 c XOR drop_bit 63 c_next"

text \<open>The value OR-ed into \<^verbatim>\<open>c_next_step\<close> by pass \<open>i\<close> of the loop.\<close>

definition ca1d_term :: "u8 \<Rightarrow> u64 \<Rightarrow> u64 \<Rightarrow> u64 \<Rightarrow> nat \<Rightarrow> u64" where
  "ca1d_term rule l c r i =
     (let active = BIT_TO_MAX (uint rule) i;
          left = BIT_TO_MAX (int i) 2;
          center = BIT_TO_MAX (int i) 1;
          right = BIT_TO_MAX (int i) 0
      in active AND NOT (left XOR l) AND NOT (center XOR c) AND NOT (right XOR r))"

definition ca1d_rule_apply :: "u8 \<Rightarrow> u64 \<Rightarrow> u64 \<Rightarrow> u64 \<Rightarrow> u64 \<Rightarrow> u64" where
  "ca1d_rule_apply rule c_prev c c_next c_prev_step =
     (let l = ca1d_l c_prev c;
          r = ca1d_r c c_next;
          c_next_step = fold (\<lambda>i acc. acc OR ca1d_term rule l c r i) [0..<8] 0
      in c_next_step XOR c_prev_step)"

text \<open>
  The 3-bit neighbourhood pattern at bit position \<open>k\<close> of three aligned words: the bit of
  the left word is the most-significant bit of the pattern, the bit of the right word the
  least-significant one.
\<close>

definition nbr_pattern :: "u64 \<Rightarrow> u64 \<Rightarrow> u64 \<Rightarrow> nat \<Rightarrow> nat" where
  "nbr_pattern l c r k = 4 * of_bool (bit l k) + 2 * of_bool (bit c k) + of_bool (bit r k)"

text \<open>
  The neighbourhood as the specification words it: the left bit is bit \<open>k + 1\<close> of the
  centre word, with bit 0 of the left word when \<open>k\<close> is the most-significant position; the
  right bit is bit \<open>k - 1\<close> of the centre word, with the least-significant bit of the right
  word when \<open>k\<close> is the least-significant position. Positions are counted from the
  least-significant end, the only numbering under which \<open>k + 1\<close> leaves the word exactly
  at the most-significant position.
\<close>

definition spec_nbr_pattern :: "u64 \<Rightarrow> u64 \<Rightarrow> u64 \<Rightarrow> nat \<Rightarrow> nat" where
  "spec_nbr_pattern left_word center_word right_word k =
     4 * of_bool (if k = 63 then bit left_word 0 else bit center_word (k + 1))
     + 2 * of_bool (bit center_word k)
     + of_bool (if k = 0 then bit right_word 0 else bit center_word (k - 1))"

subsection \<open>\<^verbatim>\<open>ca1d_meta_rule_apply\<close>\<close>

text \<open>
  The density symbol of a word, \<^verbatim>\<open>pop_count(c) > 32 ? 1 : 0\<close>, as the \<^verbatim>\<open>int\<close> the source
  stores in \<^verbatim>\<open>pl\<close>, \<^verbatim>\<open>pc\<close> and \<^verbatim>\<open>pr\<close>.
\<close>

definition density :: "u64 \<Rightarrow> int" where
  "density w = (if 32 < unat (pop_count w) then 1 else 0)"

text \<open>
  The value OR-ed into \<^verbatim>\<open>c_next_step\<close> by pass \<open>i\<close> of the loop of
  \<^verbatim>\<open>ca1d_meta_rule_apply\<close>. All operands are C \<^verbatim>\<open>int\<close>s; \<open>NOT\<close> on \<open>int\<close> is the two's
  complement \<^verbatim>\<open>~\<close>.
\<close>

definition meta_term :: "u8 \<Rightarrow> int \<Rightarrow> int \<Rightarrow> int \<Rightarrow> nat \<Rightarrow> int" where
  "meta_term rule pl pc pr i =
     (let active = drop_bit i (uint rule) AND 1;
          left = drop_bit 2 (int i) AND 1;
          center = drop_bit 1 (int i) AND 1;
          right = int i AND 1
      in active AND NOT (left XOR pl) AND NOT (center XOR pc) AND NOT (right XOR pr))"

text \<open>The value of \<^verbatim>\<open>c_next_step\<close> when the loop ends: the index into \<^verbatim>\<open>rules\<close>.\<close>

definition meta_next_step :: "u8 \<Rightarrow> u64 \<Rightarrow> u64 \<Rightarrow> u64 \<Rightarrow> int" where
  "meta_next_step rule c_prev c c_next =
     (let pl = density c_prev;
          pc = density c;
          pr = density c_next
      in fold (\<lambda>i c_next_step. c_next_step OR meta_term rule pl pc pr i) [0..<8] 0)"

text \<open>
  \<^verbatim>\<open>return rules[c_next_step]\<close>. The global array \<^verbatim>\<open>rules[256]\<close> is passed as a list.
\<close>

definition ca1d_meta_rule_apply :: "u8 list \<Rightarrow> u8 \<Rightarrow> u64 \<Rightarrow> u64 \<Rightarrow> u64 \<Rightarrow> u8" where
  "ca1d_meta_rule_apply rules rule c_prev c c_next =
     rules ! nat (meta_next_step rule c_prev c c_next)"

subsection \<open>The global state and the row functions\<close>

text \<open>
  The file-scope variables that configure a run. \<^verbatim>\<open>reversible\<close> is a C \<^verbatim>\<open>int\<close> used as a
  flag, so it is a \<open>bool\<close>. The matrix \<^verbatim>\<open>steps\<close> is passed separately, as the list of
  its rows.

  Modelled from the spec: the macros \<^verbatim>\<open>GP_MIN\<close> and \<^verbatim>\<open>gp_matrix_idx\<close> and the allocators
  \<^verbatim>\<open>gp_vec_new\<close> and \<^verbatim>\<open>gp_matrix_new\<close> come from the gfxprim library, which is not among
  the sources. \<^verbatim>\<open>GP_MIN\<close> is the minimum. The matrix is the ordered sequence of \<open>height\<close>
  rows of \<open>width\<close> words each, so \<^verbatim>\<open>steps + gp_matrix_idx(width, i, 0)\<close> is row \<open>i\<close>. The
  row \<^verbatim>\<open>zeroes\<close>, the source's "zero row mask", is never written after its allocation
  and is the constant all-zero row of \<open>width\<close> words.
\<close>

record ca1d =
  width :: nat
  height :: nat
  rule_n :: u8
  rules :: "u8 list"
  reversible :: bool
  meta_rule :: u8
  init :: "u64 list"

text \<open>
  \<^verbatim>\<open>ca1d_rule_apply_row(prev, cur, next)\<close> writes the row \<^verbatim>\<open>next\<close>; the model returns it.
  The arguments are rows of the matrix, so they hold exactly \<open>width\<close> words each. The
  result is \<open>None\<close> where the C code has no defined behaviour: a width of 0 (the index
  \<^verbatim>\<open>width - 1\<close> wraps around), a row or the rule table of the wrong size, and
  \<^verbatim>\<open>i % rule_n\<close> with \<^verbatim>\<open>rule_n\<close> equal to 0. After the loop, \<open>i\<close> is \<open>max 1 (width - 1)\<close>.
\<close>

definition ca1d_rule_apply_row ::
  "ca1d \<Rightarrow> u64 list \<Rightarrow> u64 list \<Rightarrow> u64 list \<Rightarrow> u64 list option" where
  "ca1d_rule_apply_row g prev cur nxt =
     (let w = width g; n = unat (rule_n g) in
      if w = 0 \<or> length prev \<noteq> w \<or> length cur \<noteq> w \<or> length nxt \<noteq> w
         \<or> length (rules g) \<noteq> 256 \<or> (1 < w \<and> n = 0)
      then None
      else
        let next0 = nxt[0 := ca1d_rule_apply (rules g ! 0)
                      (cur ! (w - 1)) (cur ! 0) (cur ! min 1 (w - 1)) (prev ! 0)];
            next1 = fold (\<lambda>i nx. nx[i := ca1d_rule_apply (rules g ! (i mod n))
                      (cur ! (i - 1)) (cur ! i) (cur ! (i + 1)) (prev ! i)]) [1..<w - 1] next0;
            i = max 1 (w - 1)
        in if w \<le> i then Some next1
           else Some (next1[i := ca1d_rule_apply (rules g ! (i mod n))
                      (cur ! (i - 1)) (cur ! i) (cur ! 0) (prev ! i)]))"

definition ca1d_meta_rule_apply_row ::
  "ca1d \<Rightarrow> u64 list \<Rightarrow> u64 list \<Rightarrow> u64 list \<Rightarrow> u64 list option" where
  "ca1d_meta_rule_apply_row g prev cur nxt =
     (let w = width g in
      if w = 0 \<or> length prev \<noteq> w \<or> length cur \<noteq> w \<or> length nxt \<noteq> w
         \<or> length (rules g) \<noteq> 256
      then None
      else
        let next0 =
              (let c_prev = cur ! (w - 1); c = cur ! 0; c_next = cur ! min 1 (w - 1);
                   rule = ca1d_meta_rule_apply (rules g) (meta_rule g) c_prev c c_next
               in nxt[0 := ca1d_rule_apply rule c_prev c c_next (prev ! 0)]);
            next1 = fold (\<lambda>i nx.
               let c_prev = cur ! (i - 1); c = cur ! i; c_next = cur ! (i + 1);
                   rule = ca1d_meta_rule_apply (rules g) (meta_rule g) c_prev c c_next
               in nx[i := ca1d_rule_apply rule c_prev c c_next (prev ! i)]) [1..<w - 1] next0;
            i = max 1 (w - 1)
        in if w \<le> i then Some next1
           else
             let c_prev = cur ! (i - 1); c = cur ! i; c_next = cur ! 0;
                 rule = ca1d_meta_rule_apply (rules g) (meta_rule g) c_prev c c_next
             in Some (next1[i := ca1d_rule_apply rule c_prev c c_next (prev ! i)]))"

subsection \<open>\<^verbatim>\<open>ca1d_run\<close>\<close>

text \<open>
  The choice made at the top of the loop body:
  \<^verbatim>\<open>if (meta_rule) ca1d_meta_rule_apply_row(...); else ca1d_rule_apply_row(...);\<close>
\<close>

definition ca1d_apply_row ::
  "ca1d \<Rightarrow> u64 list \<Rightarrow> u64 list \<Rightarrow> u64 list \<Rightarrow> u64 list option" where
  "ca1d_apply_row g prev cur nxt =
     (if meta_rule g \<noteq> 0 then ca1d_meta_rule_apply_row g prev cur nxt
      else ca1d_rule_apply_row g prev cur nxt)"

text \<open>
  The pointer \<^verbatim>\<open>prev\<close> is either \<^verbatim>\<open>zeroes\<close> or a row of \<^verbatim>\<open>steps\<close>; \<^verbatim>\<open>cur\<close> and \<^verbatim>\<open>next\<close>
  always point into \<^verbatim>\<open>steps\<close> and are row indices.
\<close>

datatype rowref = Zeroes | Step nat

definition row_at :: "ca1d \<Rightarrow> u64 list list \<Rightarrow> rowref \<Rightarrow> u64 list" where
  "row_at g steps p = (case p of Zeroes \<Rightarrow> replicate (width g) 0 | Step j \<Rightarrow> steps ! j)"

definition in_steps :: "u64 list list \<Rightarrow> rowref \<Rightarrow> bool" where
  "in_steps steps p = (case p of Zeroes \<Rightarrow> True | Step j \<Rightarrow> j < length steps)"

text \<open>
  The loop \<^verbatim>\<open>for (;;) { ...; if (++i >= height) break; prev = ...; cur = next; next = ...; }\<close>.
  A row outside the matrix makes the result \<open>None\<close>. The loop ends because \<open>height - i\<close>
  decreases.
\<close>

function ca1d_run_loop ::
  "ca1d \<Rightarrow> rowref \<Rightarrow> nat \<Rightarrow> nat \<Rightarrow> nat \<Rightarrow> u64 list list \<Rightarrow> u64 list list option" where
  "ca1d_run_loop g prev cur nxt i steps =
     (if \<not> in_steps steps prev \<or> length steps \<le> cur \<or> length steps \<le> nxt then None
      else case ca1d_apply_row g (row_at g steps prev) (steps ! cur) (steps ! nxt) of
        None \<Rightarrow> None
      | Some row \<Rightarrow>
          if height g \<le> i + 1 then Some (steps[nxt := row])
          else ca1d_run_loop g (if reversible g then Step cur else Zeroes) nxt (i + 1) (i + 1)
                 (steps[nxt := row]))"
  by pat_completeness auto
termination
  by (relation "measure (\<lambda>(g, prev, cur, nxt, i, steps). height g - i)") auto

text \<open>
  \<^verbatim>\<open>ca1d_run\<close>: \<^verbatim>\<open>prev = zeroes\<close>, \<^verbatim>\<open>cur\<close> is row 0, \<^verbatim>\<open>next\<close> is row 1, \<^verbatim>\<open>i = 1\<close>, and
  \<^verbatim>\<open>memcpy\<close> copies \<^verbatim>\<open>init\<close> into row 0.
\<close>

definition ca1d_run :: "ca1d \<Rightarrow> u64 list list \<Rightarrow> u64 list list option" where
  "ca1d_run g steps =
     (if height g = 0 \<or> length steps \<noteq> height g \<or> length (init g) \<noteq> width g then None
      else ca1d_run_loop g Zeroes 0 1 1 (steps[0 := init g]))"

subsection \<open>\<^verbatim>\<open>parse_rule_nums\<close>\<close>

text \<open>
  The rule string is the list of the characters before the terminating NUL; a NUL inside
  the list ends the loop as the terminator does. \<^verbatim>\<open>case '0' ... '9'\<close> is \<open>is_digit\<close>.
\<close>

definition is_digit :: "char \<Rightarrow> bool" where
  "is_digit c \<longleftrightarrow> 48 \<le> (of_char c :: nat) \<and> (of_char c :: nat) \<le> 57"

text \<open>The code after the label \<^verbatim>\<open>out:\<close>.\<close>

definition parse_out :: "ca1d \<Rightarrow> u8 \<Rightarrow> u8 \<Rightarrow> ca1d" where
  "parse_out g rule_acc rule_indx =
     g\<lparr>rules := (rules g)[unat rule_indx := rule_acc], rule_n := rule_indx + 1\<rparr>"

text \<open>
  The loop \<^verbatim>\<open>while (*c) { switch (*c) {...} c++; }\<close>. \<^verbatim>\<open>rule_acc\<close> and \<^verbatim>\<open>rule_indx\<close> are
  \<^verbatim>\<open>uint8_t\<close> and wrap around. The counter \<open>k\<close> is the distance of the pointer \<^verbatim>\<open>c\<close>
  from the start of the string; the loop returns it with the new state. A digit met with
  \<^verbatim>\<open>rule_acc > 25\<close> jumps to \<^verbatim>\<open>out\<close>; the \<^verbatim>\<open>default\<close> case returns at once, without
  the code after \<^verbatim>\<open>out\<close>.
\<close>

fun parse_loop :: "ca1d \<Rightarrow> u8 \<Rightarrow> u8 \<Rightarrow> nat \<Rightarrow> string \<Rightarrow> ca1d \<times> nat" where
  "parse_loop g rule_acc rule_indx k [] = (parse_out g rule_acc rule_indx, k)"
| "parse_loop g rule_acc rule_indx k (c # cs) =
     (if c = CHR 0x00 then (parse_out g rule_acc rule_indx, k)
      else if is_digit c then
        (if 25 < rule_acc then (parse_out g rule_acc rule_indx, k)
         else parse_loop g (rule_acc * 10 + of_nat (of_char c - 48)) rule_indx (k + 1) cs)
      else if c = CHR '','' \<or> c = CHR '';'' then
        parse_loop (g\<lparr>rules := (rules g)[unat rule_indx := rule_acc]\<rparr>) 0 (rule_indx + 1)
          (k + 1) cs
      else if c = CHR '' '' then parse_loop g rule_acc rule_indx (k + 1) cs
      else (g, k))"

definition parse_rule_nums :: "ca1d \<Rightarrow> string \<Rightarrow> ca1d" where
  "parse_rule_nums g rules_str = fst (parse_loop g 0 0 0 rules_str)"

text \<open>The number of characters the loop of \<^verbatim>\<open>parse_rule_nums\<close> consumes before it stops.\<close>

definition consumed :: "ca1d \<Rightarrow> string \<Rightarrow> nat" where
  "consumed g rules_str = snd (parse_loop g 0 0 0 rules_str)"

text \<open>The characters the \<^verbatim>\<open>switch\<close> has a case for.\<close>

definition recognized :: "char \<Rightarrow> bool" where
  "recognized c \<longleftrightarrow> is_digit c \<or> c = CHR '','' \<or> c = CHR '';'' \<or> c = CHR '' ''"

text \<open>
  The stopping point as the claim words it: the position of the first character that is
  not a digit, comma, semicolon or space, or of the first digit met while the number
  accumulated since the last comma or semicolon, kept in eight bits, is greater than 25;
  the length of the string when there is no such character.
\<close>

fun spec_stop :: "nat \<Rightarrow> string \<Rightarrow> nat" where
  "spec_stop acc [] = 0"
| "spec_stop acc (c # cs) =
     (if is_digit c then
        (if 25 < acc then 0
         else Suc (spec_stop ((acc * 10 + (of_char c - 48)) mod 256) cs))
      else if c = CHR '','' \<or> c = CHR '';'' then Suc (spec_stop 0 cs)
      else if c = CHR '' '' then Suc (spec_stop acc cs)
      else 0)"

subsection \<open>What a row transition is meant to compute\<close>

text \<open>The toroidal neighbours of column \<open>c\<close> in a row of \<open>w\<close> words.\<close>

definition left_nbr :: "nat \<Rightarrow> nat \<Rightarrow> nat" where
  "left_nbr w c = (if c = 0 then w - 1 else c - 1)"

definition right_nbr :: "nat \<Rightarrow> nat \<Rightarrow> nat" where
  "right_nbr w c = (if c = w - 1 then 0 else c + 1)"

text \<open>
  The row in which column \<open>c\<close> is computed with the rule \<open>sel c\<close>, from the word \<open>c\<close> of
  \<open>cur\<close>, its toroidal neighbours, and the word \<open>c\<close> of \<open>prev\<close> as the carry word.
\<close>

definition row_of :: "(nat \<Rightarrow> u8) \<Rightarrow> nat \<Rightarrow> u64 list \<Rightarrow> u64 list \<Rightarrow> u64 list" where
  "row_of sel w prev cur =
     map (\<lambda>c. ca1d_rule_apply (sel c)
            (cur ! left_nbr w c) (cur ! c) (cur ! right_nbr w c) (prev ! c)) [0..<w]"

text \<open>The rule of column \<open>c\<close>: by position in the rule list, or chosen by the meta rule.\<close>

definition fixed_rule :: "ca1d \<Rightarrow> nat \<Rightarrow> u8" where
  "fixed_rule g c = rules g ! (c mod unat (rule_n g))"

definition meta_sel :: "ca1d \<Rightarrow> u64 list \<Rightarrow> nat \<Rightarrow> u8" where
  "meta_sel g cur c =
     ca1d_meta_rule_apply (rules g) (meta_rule g)
       (cur ! left_nbr (width g) c) (cur ! c) (cur ! right_nbr (width g) c)"

definition rule_sel :: "ca1d \<Rightarrow> u64 list \<Rightarrow> nat \<Rightarrow> u8" where
  "rule_sel g cur c = (if meta_rule g \<noteq> 0 then meta_sel g cur c else fixed_rule g c)"

definition row_spec :: "ca1d \<Rightarrow> u64 list \<Rightarrow> u64 list \<Rightarrow> u64 list" where
  "row_spec g prev cur = row_of (rule_sel g cur) (width g) prev cur"

text \<open>The row that supplies the carry words of generation \<open>gen\<close>.\<close>

definition carry_row :: "ca1d \<Rightarrow> u64 list list \<Rightarrow> nat \<Rightarrow> u64 list" where
  "carry_row g m gen =
     (if reversible g \<and> 2 \<le> gen then m ! (gen - 2) else replicate (width g) 0)"

text \<open>
  A configuration the program can run: at least one word per row, at least two rows, an
  initial row of the row's width, the 256-entry rule table, and a rule count that is not
  zero where \<^verbatim>\<open>i % rule_n\<close> is evaluated. The matrix has \<open>height\<close> rows of \<open>width\<close> words.
\<close>

definition ca1d_ok :: "ca1d \<Rightarrow> bool" where
  "ca1d_ok g \<longleftrightarrow>
     1 \<le> width g \<and> 2 \<le> height g \<and> length (init g) = width g \<and> length (rules g) = 256
     \<and> (meta_rule g \<noteq> 0 \<or> width g = 1 \<or> rule_n g \<noteq> 0)"

definition steps_ok :: "ca1d \<Rightarrow> u64 list list \<Rightarrow> bool" where
  "steps_ok g steps \<longleftrightarrow>
     length steps = height g \<and> list_all (\<lambda>row. length row = width g) steps"

text \<open>Rows 1 to \<open>k - 1\<close> of the matrix follow the recurrence.\<close>

definition rows_upto :: "ca1d \<Rightarrow> u64 list list \<Rightarrow> nat \<Rightarrow> bool" where
  "rows_upto g m k \<longleftrightarrow>
     (\<forall>gen. 1 \<le> gen \<and> gen < k \<longrightarrow>
        m ! gen = row_spec g (carry_row g m gen) (m ! (gen - 1)))"

subsection \<open>Auxiliary functions for the population count\<close>

text \<open>
  \<open>pcn n x\<close> counts the 1 bits among the low \<open>n\<close> bits of \<open>x\<close>; \<open>pcf s n x\<close> is the number
  whose \<open>n\<close> fields of \<open>s\<close> bits each hold the count of the same field of \<open>x\<close>; \<open>fmask s n\<close>
  is the mask of \<open>n\<close> groups of \<open>s\<close> ones followed by \<open>s\<close> zeros; \<open>stage\<close> is one
  mask-and-add step on natural numbers.
\<close>

primrec pcn :: "nat \<Rightarrow> nat \<Rightarrow> nat" where
  "pcn 0 x = 0"
| "pcn (Suc n) x = x mod 2 + pcn n (x div 2)"

primrec pcf :: "nat \<Rightarrow> nat \<Rightarrow> nat \<Rightarrow> nat" where
  "pcf s 0 x = 0"
| "pcf s (Suc n) x = pcn s x + 2 ^ s * pcf s n (x div 2 ^ s)"

primrec fmask :: "nat \<Rightarrow> nat \<Rightarrow> nat" where
  "fmask s 0 = 0"
| "fmask s (Suc n) = (2 ^ s - 1) + 2 ^ (2 * s) * fmask s n"

definition stage :: "nat \<Rightarrow> nat \<Rightarrow> nat \<Rightarrow> nat" where
  "stage s B y = (y div 2 ^ s AND B) + (y AND B)"

section \<open>Rule application on one word\<close>

lemma bit_BIT_TO_MAX: "bit (BIT_TO_MAX b n) k \<longleftrightarrow> k < 64 \<and> bit b n"
proof -
  have "drop_bit n b AND 1 = of_bool (bit b n)"
    by (simp add: and_one_eq mod_2_eq_odd bit_iff_odd_drop_bit)
  then show ?thesis
    unfolding BIT_TO_MAX_def by (cases "bit b n") (simp_all add: bit_simps)
qed

lemma pattern_eq_iff:
  assumes "i < 8"
  shows "(4 * of_bool a + 2 * of_bool b + of_bool d = i) \<longleftrightarrow>
     (bit (int i) 2 = a \<and> bit (int i) 1 = b \<and> bit (int i) 0 = d)"
proof -
  from assms have "i \<in> {0, 1, 2, 3, 4, 5, 6, 7}" by auto
  then show ?thesis
    by (elim insertE emptyE)
      (cases a; cases b; cases d; simp add: bit_iff_odd_drop_bit drop_bit_eq_div)+
qed

lemma bit_ca1d_term:
  "bit (ca1d_term rule l c r i) k \<longleftrightarrow> k < 64 \<and> bit rule i \<and> nbr_pattern l c r k = i"
proof (cases "bit rule i")
  case False
  then show ?thesis
    by (simp add: ca1d_term_def Let_def bit_simps bit_BIT_TO_MAX bit_uint_iff)
next
  case True
  then have "i < 8" by (auto dest: bit_imp_le_length)
  from pattern_eq_iff [OF this] True show ?thesis
    by (auto simp add: ca1d_term_def Let_def bit_simps bit_BIT_TO_MAX bit_uint_iff
        nbr_pattern_def)
qed

lemma upt_0_8: "[0..<8] = [0, 1, 2, 3, 4, 5, 6, 7]"
  by (simp add: upt_rec)

lemma ca1d_rule_apply_unroll:
  "ca1d_rule_apply rule cp c cn carry =
     (ca1d_term rule (ca1d_l cp c) c (ca1d_r c cn) 0
      OR ca1d_term rule (ca1d_l cp c) c (ca1d_r c cn) 1
      OR ca1d_term rule (ca1d_l cp c) c (ca1d_r c cn) 2
      OR ca1d_term rule (ca1d_l cp c) c (ca1d_r c cn) 3
      OR ca1d_term rule (ca1d_l cp c) c (ca1d_r c cn) 4
      OR ca1d_term rule (ca1d_l cp c) c (ca1d_r c cn) 5
      OR ca1d_term rule (ca1d_l cp c) c (ca1d_r c cn) 6
      OR ca1d_term rule (ca1d_l cp c) c (ca1d_r c cn) 7) XOR carry"
  by (simp add: ca1d_rule_apply_def Let_def upt_0_8 or.assoc)

lemma bit_ca1d_rule_apply:
  "bit (ca1d_rule_apply rule cp c cn carry) k \<longleftrightarrow>
     k < 64 \<and> (bit rule (nbr_pattern (ca1d_l cp c) c (ca1d_r c cn) k) \<noteq> bit carry k)"
proof (cases "k < 64")
  case False
  then show ?thesis by (auto dest: bit_imp_le_length)
next
  case True
  define p where "p = nbr_pattern (ca1d_l cp c) c (ca1d_r c cn) k"
  have "p \<in> {0, 1, 2, 3, 4, 5, 6, 7}"
    by (simp add: p_def nbr_pattern_def)
  then have "(bit rule 0 \<and> p = 0 \<or> bit rule 1 \<and> p = 1 \<or> bit rule 2 \<and> p = 2
      \<or> bit rule 3 \<and> p = 3 \<or> bit rule 4 \<and> p = 4 \<or> bit rule 5 \<and> p = 5
      \<or> bit rule 6 \<and> p = 6 \<or> bit rule 7 \<and> p = 7)
      \<longleftrightarrow> bit rule p"
    by (elim insertE emptyE) simp_all
  with True show ?thesis
    by (simp add: ca1d_rule_apply_unroll bit_simps bit_ca1d_term flip: p_def)
qed

lemma bit_ca1d_l:
  "k < 64 \<Longrightarrow> bit (ca1d_l cp c) k = (if k = 63 then bit cp 0 else bit c (k + 1))"
  by (auto simp add: ca1d_l_def bit_simps dest: bit_imp_le_length)

lemma bit_ca1d_r:
  "k < 64 \<Longrightarrow> bit (ca1d_r c cn) k = (if k = 0 then bit cn 63 else bit c (k - 1))"
  unfolding ca1d_r_def bit_xor_iff bit_push_bit_iff bit_drop_bit_eq
  by (auto simp add: bit_simps dest: bit_imp_le_length)

lemma ca1d_rule_apply_involution:
  "ca1d_rule_apply rule cp c cn (ca1d_rule_apply rule cp c cn x) = x"
  by (simp add: ca1d_rule_apply_def Let_def)

text \<open>
  Claim C1. For every rule byte, every three neighbour words and every carry word,
  \<^verbatim>\<open>ca1d_rule_apply\<close> returns the bitwise OR of the eight per-pattern contributions, XOR-ed
  with the carry word. The shifted word \<open>l\<close> holds at position \<open>k\<close> bit \<open>k + 1\<close> of the
  centre word (bit 0 of the left word at position 63), and \<open>r\<close> holds bit \<open>k - 1\<close> of the
  centre word (bit 63 of the right word at position 0). The contribution of pattern \<open>i\<close>
  has a 1 exactly at the positions whose neighbourhood pattern (left bit worth 4, centre
  bit 2, right bit 1) is \<open>i\<close>, and only if bit \<open>i\<close> of the rule is 1. So before the XOR
  the bit at each position is the bit of the rule selected by the pattern of the input
  words there, and the returned bit is that bit XOR the carry word's bit.
\<close>

theorem ca1d_rule_apply_lookup_or_xor:
  "ca1d_rule_apply rule left_word center_word right_word carry_word =
     (ca1d_term rule (ca1d_l left_word center_word) center_word
          (ca1d_r center_word right_word) 0
      OR ca1d_term rule (ca1d_l left_word center_word) center_word
          (ca1d_r center_word right_word) 1
      OR ca1d_term rule (ca1d_l left_word center_word) center_word
          (ca1d_r center_word right_word) 2
      OR ca1d_term rule (ca1d_l left_word center_word) center_word
          (ca1d_r center_word right_word) 3
      OR ca1d_term rule (ca1d_l left_word center_word) center_word
          (ca1d_r center_word right_word) 4
      OR ca1d_term rule (ca1d_l left_word center_word) center_word
          (ca1d_r center_word right_word) 5
      OR ca1d_term rule (ca1d_l left_word center_word) center_word
          (ca1d_r center_word right_word) 6
      OR ca1d_term rule (ca1d_l left_word center_word) center_word
          (ca1d_r center_word right_word) 7) XOR carry_word
   \<and> (bit (ca1d_l left_word center_word) k \<longleftrightarrow>
        k < 64 \<and> (if k = 63 then bit left_word 0 else bit center_word (k + 1)))
   \<and> (bit (ca1d_r center_word right_word) k \<longleftrightarrow>
        k < 64 \<and> (if k = 0 then bit right_word 63 else bit center_word (k - 1)))
   \<and> (bit (ca1d_term rule l c r i) k \<longleftrightarrow>
        k < 64 \<and> bit rule i
        \<and> 4 * of_bool (bit l k) + 2 * of_bool (bit c k) + of_bool (bit r k) = i)
   \<and> (bit (ca1d_rule_apply rule left_word center_word right_word carry_word
             XOR carry_word) k \<longleftrightarrow>
        k < 64
        \<and> bit rule
            (4 * of_bool (if k = 63 then bit left_word 0 else bit center_word (k + 1))
             + 2 * of_bool (bit center_word k)
             + of_bool (if k = 0 then bit right_word 63 else bit center_word (k - 1))))
   \<and> (bit (ca1d_rule_apply rule left_word center_word right_word carry_word) k \<longleftrightarrow>
        k < 64
        \<and> (bit rule
             (4 * of_bool (if k = 63 then bit left_word 0 else bit center_word (k + 1))
              + 2 * of_bool (bit center_word k)
              + of_bool (if k = 0 then bit right_word 63 else bit center_word (k - 1)))
           \<noteq> bit carry_word k))"
proof -
  let ?l = "ca1d_l left_word center_word" and ?r = "ca1d_r center_word right_word"
  let ?p = "4 * of_bool (if k = 63 then bit left_word 0 else bit center_word (k + 1))
             + 2 * of_bool (bit center_word k)
             + of_bool (if k = 0 then bit right_word 63 else bit center_word (k - 1)) :: nat"
  have l: "bit ?l k \<longleftrightarrow> k < 64 \<and> (if k = 63 then bit left_word 0 else bit center_word (k + 1))"
  proof (cases "k < 64")
    case True
    then show ?thesis by (simp add: bit_ca1d_l)
  next
    case False
    then show ?thesis by (auto dest: bit_imp_le_length)
  qed
  have r: "bit ?r k \<longleftrightarrow> k < 64 \<and> (if k = 0 then bit right_word 63 else bit center_word (k - 1))"
  proof (cases "k < 64")
    case True
    then show ?thesis by (simp add: bit_ca1d_r)
  next
    case False
    then show ?thesis by (auto dest: bit_imp_le_length)
  qed
  have p: "nbr_pattern ?l center_word ?r k = ?p" if "k < 64"
    using that by (simp add: nbr_pattern_def bit_ca1d_l bit_ca1d_r)
  have t: "bit (ca1d_term rule l c r i) k \<longleftrightarrow>
        k < 64 \<and> bit rule i
        \<and> 4 * of_bool (bit l k) + 2 * of_bool (bit c k) + of_bool (bit r k) = i"
    using bit_ca1d_term [of rule l c r i k] by (simp add: nbr_pattern_def)
  have res: "bit (ca1d_rule_apply rule left_word center_word right_word carry_word) k \<longleftrightarrow>
        k < 64 \<and> (bit rule ?p \<noteq> bit carry_word k)"
  proof (cases "k < 64")
    case True
    with p have "nbr_pattern ?l center_word ?r k = ?p" by simp
    with True show ?thesis
      by (simp only: bit_ca1d_rule_apply simp_thms)
  next
    case False
    then show ?thesis by (auto dest: bit_imp_le_length)
  qed
  have "bit (ca1d_rule_apply rule left_word center_word right_word carry_word
             XOR carry_word) k \<longleftrightarrow> k < 64 \<and> bit rule ?p"
  proof (cases "k < 64")
    case True
    then show ?thesis unfolding bit_xor_iff res by (simp only: simp_thms) blast
  next
    case False
    then show ?thesis by (auto dest: bit_imp_le_length)
  qed
  then show ?thesis
    using ca1d_rule_apply_unroll [of rule left_word center_word right_word carry_word]
      l r t res
    by (intro conjI)
qed

text \<open>
  Claim C5, as stated, fails on the code: the carry into the right neighbour of the
  least-significant position is not the least-significant bit of the right word. With
  rule 170 (the output is the right neighbour), an all-zero centre word and a right word
  whose only 1 is its least-significant bit, the claim's neighbourhood at position 0 is
  the pattern 001 and the output bit would be 1; the code sees the pattern 000 and
  returns 0.
\<close>

theorem ca1d_rule_apply_right_carry_counterexample:
  "nbr_pattern (ca1d_l 0 0) 0 (ca1d_r 0 1) 0 = 0
   \<and> spec_nbr_pattern 0 0 1 0 = 1
   \<and> bit (170 :: u8) (spec_nbr_pattern 0 0 1 0)
   \<and> \<not> bit (ca1d_rule_apply 170 0 0 1 0) 0"
  by (simp add: bit_ca1d_rule_apply nbr_pattern_def spec_nbr_pattern_def ca1d_l_def
      ca1d_r_def bit_simps)

text \<open>
  Claim C5, amended. With bits numbered from the least-significant end, at every position
  \<open>k < 64\<close> the left bit is bit \<open>k + 1\<close> of the centre word, and bit 0 of the left word when
  \<open>k = 63\<close>; the centre bit is bit \<open>k\<close>; the right bit is bit \<open>k - 1\<close> of the centre word, and
  bit 63, the most-significant bit, of the right word when \<open>k = 0\<close>. The result bit at
  \<open>k\<close> is the rule's bit for that pattern, XOR-ed with the carry word's bit.
\<close>

theorem ca1d_rule_apply_neighbourhood:
  assumes "k < 64"
  shows "bit (ca1d_l left_word center_word) k =
           (if k = 63 then bit left_word 0 else bit center_word (k + 1))
    \<and> bit (ca1d_r center_word right_word) k =
           (if k = 0 then bit right_word 63 else bit center_word (k - 1))
    \<and> bit (ca1d_rule_apply rule left_word center_word right_word carry_word) k =
           (bit rule
              (4 * of_bool (if k = 63 then bit left_word 0 else bit center_word (k + 1))
               + 2 * of_bool (bit center_word k)
               + of_bool (if k = 0 then bit right_word 63 else bit center_word (k - 1)))
            \<noteq> bit carry_word k)"
  using assms
  by (simp add: bit_ca1d_rule_apply nbr_pattern_def bit_ca1d_l bit_ca1d_r)

theorem ca1d_rule_apply_neighbourhood_witness:
  "bit (ca1d_r 0 (push_bit 63 1)) 0 \<and> bit (ca1d_l 1 0) 63
   \<and> bit (ca1d_rule_apply 170 0 0 (push_bit 63 1) 0) 0"
  using ca1d_rule_apply_neighbourhood
      [where k = 0 and left_word = 0 and center_word = 0 and right_word = "push_bit 63 1"
         and rule = 170 and carry_word = 0]
    ca1d_rule_apply_neighbourhood
      [where k = 63 and left_word = 1 and center_word = 0 and right_word = 0
         and rule = 0 and carry_word = 0]
  by (simp add: bit_simps)

section \<open>The population count\<close>

lemma pcn_le: "pcn n x \<le> n"
proof (induction n arbitrary: x)
  case 0
  show ?case by simp
next
  case (Suc n)
  have "x mod 2 \<le> 1" by simp
  with Suc [of "x div 2"] show ?case by simp
qed

lemma pcn_less: "pcn n x < 2 ^ n"
  using pcn_le [of n x] less_exp [of n] by (rule le_less_trans)

lemma pcn_add: "pcn (a + b) x = pcn a x + pcn b (x div 2 ^ a)"
  by (induction a arbitrary: x) (simp_all add: div_mult2_eq)

lemma pcf_less: "pcf s n x < 2 ^ (s * n)"
proof (induction n arbitrary: x)
  case 0
  show ?case by simp
next
  case (Suc n)
  have "pcn s x + 2 ^ s * pcf s n (x div 2 ^ s) < 2 ^ s + 2 ^ s * pcf s n (x div 2 ^ s)"
    using pcn_less [of s x] by simp
  also have "\<dots> = 2 ^ s * Suc (pcf s n (x div 2 ^ s))" by simp
  also have "\<dots> \<le> 2 ^ s * 2 ^ (s * n)"
    using Suc [of "x div 2 ^ s"] by (simp only: mult_le_mono2 Suc_leI)
  finally show ?case by (simp add: power_add)
qed

lemma and_split_nat:
  fixes u v m w :: nat
  assumes "u < 2 ^ k" "m < 2 ^ k"
  shows "(u + 2 ^ k * v) AND (m + 2 ^ k * w) = (u AND m) + 2 ^ k * (v AND w)"
proof -
  let ?a = "u + 2 ^ k * v" and ?b = "m + 2 ^ k * w"
  have ta: "take_bit k ?a = u" and da: "drop_bit k ?a = v"
    using assms by (simp_all add: take_bit_eq_mod drop_bit_eq_div)
  have tb: "take_bit k ?b = m" and db: "drop_bit k ?b = w"
    using assms by (simp_all add: take_bit_eq_mod drop_bit_eq_div)
  have "?a AND ?b = take_bit k (?a AND ?b) + 2 ^ k * drop_bit k (?a AND ?b)"
    by (simp add: take_bit_eq_mod drop_bit_eq_div)
  also have "\<dots> = (u AND m) + 2 ^ k * (v AND w)"
    by (simp only: take_bit_and drop_bit_and ta da tb db)
  finally show ?thesis .
qed

lemma and_low_mask_nat:
  fixes u :: nat
  assumes "u < 2 ^ k"
  shows "(u + 2 ^ k * v) AND (2 ^ k - 1) = u"
proof -
  have "(u + 2 ^ k * v) AND (2 ^ k - 1) = take_bit k (u + 2 ^ k * v)"
    by (simp add: take_bit_eq_mask mask_eq_exp_minus_1)
  also have "\<dots> = u" using assms by (simp add: take_bit_eq_mod)
  finally show ?thesis .
qed

lemma stage_pcf:
  "stage s (fmask s n) (pcf s (2 * n) x) = pcf (2 * s) n x"
proof (induction n arbitrary: x)
  case 0
  show ?case by (simp add: stage_def)
next
  case (Suc n)
  define a where "a = pcn s x"
  define b where "b = pcn s (x div 2 ^ s)"
  define x' where "x' = x div 2 ^ s div 2 ^ s"
  define y' where "y' = pcf s (2 * n) x'"
  define M where "M = fmask s n"
  define K where "K = (2::nat) ^ s"
  have a: "a < K" and b: "b < K" by (simp_all add: a_def b_def K_def pcn_less)
  have KK: "(2::nat) ^ (2 * s) = K * K" by (simp add: K_def power2_eq_square power_mult power_even_eq mult_2 power_add)
  have y: "pcf s (2 * Suc n) x = (a + K * b) + K * K * y'"
    by (simp add: a_def b_def y'_def x'_def K_def algebra_simps)
  have ab: "a + K * b < K * K"
  proof -
    have "a + K * b < K + K * b" using a by simp
    also have "\<dots> = K * Suc b" by simp
    also have "\<dots> \<le> K * K" using b by (simp only: mult_le_mono2 Suc_leI)
    finally show ?thesis .
  qed
  have K1: "K - 1 < K * K"
  proof -
    have "0 < K" by (simp add: K_def)
    then have "K - 1 < K" by simp
    also have "K \<le> K * K" using \<open>0 < K\<close> by simp
    finally show ?thesis .
  qed
  have lo: "((a + K * b) + K * K * y') AND ((K - 1) + K * K * M) = a + K * K * (y' AND M)"
  proof -
    from ab K1 have "((a + K * b) + K * K * y') AND ((K - 1) + K * K * M)
        = ((a + K * b) AND (K - 1)) + K * K * (y' AND M)"
      unfolding KK [symmetric] by (rule and_split_nat)
    moreover have "(a + K * b) AND (K - 1) = a"
      using a unfolding K_def by (rule and_low_mask_nat)
    ultimately show ?thesis by simp
  qed
  have dv: "((a + K * b) + K * K * y') div K = (b + K * (y' mod K)) + K * K * (y' div K)"
  proof -
    have e: "(a + K * b) + K * K * y' = a + K * (b + K * y')"
      by (simp add: algebra_simps)
    have "(a + K * (b + K * y')) div K = b + K * y'"
      using a by simp
    then have "((a + K * b) + K * K * y') div K = b + K * y'"
      unfolding e .
    also have "K * y' = K * (y' mod K) + K * K * (y' div K)"
      by (simp add: algebra_simps flip: distrib_left)
    finally show ?thesis by simp
  qed
  have hi: "((b + K * (y' mod K)) + K * K * (y' div K)) AND ((K - 1) + K * K * M)
      = b + K * K * ((y' div K) AND M)"
  proof -
    have bk: "b + K * (y' mod K) < K * K"
    proof -
      have "y' mod K < K" using a by simp
      have "b + K * (y' mod K) < K + K * (y' mod K)" using b by simp
      also have "\<dots> = K * Suc (y' mod K)" by simp
      also have "\<dots> \<le> K * K" using \<open>y' mod K < K\<close> by (simp only: mult_le_mono2 Suc_leI)
      finally show ?thesis .
    qed
    from bk K1 have "((b + K * (y' mod K)) + K * K * (y' div K)) AND ((K - 1) + K * K * M)
        = ((b + K * (y' mod K)) AND (K - 1)) + K * K * ((y' div K) AND M)"
      unfolding KK [symmetric] by (rule and_split_nat)
    moreover have "(b + K * (y' mod K)) AND (K - 1) = b"
      using b unfolding K_def by (rule and_low_mask_nat)
    ultimately show ?thesis by simp
  qed
  have IH: "(y' div K AND M) + (y' AND M) = pcf (2 * s) n x'"
    using Suc [of x'] by (simp add: stage_def y'_def M_def K_def)
  have "stage s (fmask s (Suc n)) (pcf s (2 * Suc n) x)
      = (b + K * K * ((y' div K) AND M)) + (a + K * K * (y' AND M))"
    unfolding stage_def y fmask.simps K_def [symmetric] M_def [symmetric] KK dv hi lo ..
  also have "\<dots> = (a + b) + K * K * ((y' div K AND M) + (y' AND M))"
    by (simp add: algebra_simps)
  also have "\<dots> = pcn (s + s) x + K * K * pcf (2 * s) n x'"
    by (simp only: IH pcn_add a_def b_def)
  also have "\<dots> = pcf (2 * s) (Suc n) x"
    by (simp add: KK [symmetric] x'_def mult_2 power_add div_mult2_eq)
  finally show ?case .
qed


lemma pcn_1: "pcn (Suc 0) x = x mod 2"
  by simp

lemma pcf_1: "pcf (Suc 0) n x = x mod 2 ^ n"
proof (induction n arbitrary: x)
  case 0
  show ?case by simp
next
  case (Suc n)
  have "x mod 2 ^ Suc n = x mod (2 * 2 ^ n)" by simp
  also have "\<dots> = 2 * (x div 2 mod 2 ^ n) + x mod 2" by (rule mod_mult2_eq)
  finally show ?case using Suc [of "x div 2"] by simp
qed

lemma pcn_filter: "pcn n x = length (filter (bit x) [0..<n])"
proof (induction n arbitrary: x)
  case 0
  show ?case by simp
next
  case (Suc n)
  have "[0..<Suc n] = 0 # map Suc [0..<n]"
    by (simp add: upt_conv_Cons map_Suc_upt del: upt_Suc)
  then have "length (filter (bit x) [0..<Suc n])
      = of_bool (bit x 0) + length (filter (bit x \<circ> Suc) [0..<n])"
    by (simp add: filter_map del: upt_Suc)
  also have "bit x \<circ> Suc = bit (x div 2)"
    by (rule ext) (simp add: bit_Suc)
  also have "of_bool (bit x 0) = x mod 2"
    by (simp add: bit_0 mod_2_eq_odd)
  finally show ?case using Suc [of "x div 2"] by simp
qed

lemma unat_step:
  fixes ret B :: u64
  assumes "unat ret = pcf s (2 * n) x" and "unat B = fmask s n" and "2 * s * n = 64"
  shows "unat ((drop_bit s ret AND B) + (ret AND B)) = pcf (2 * s) n x"
proof -
  have "unat (drop_bit s ret) = drop_bit s (unat ret)"
    by (rule unat_drop_bit_eq)
  also have "\<dots> = unat ret div 2 ^ s"
    by (rule drop_bit_eq_div)
  finally have d: "unat (drop_bit s ret) = unat ret div 2 ^ s" .
  have "unat ((drop_bit s ret AND B) + (ret AND B))
      = stage s (unat B) (unat ret) mod 2 ^ 64"
    by (simp only: unat_word_ariths unsigned_and_eq stage_def d) simp
  also have "stage s (unat B) (unat ret) = pcf (2 * s) n x"
    by (simp only: assms stage_pcf)
  also have "pcf (2 * s) n x mod 2 ^ 64 = pcf (2 * s) n x"
    using pcf_less [of "2 * s" n x] assms(3) by simp
  finally show ?thesis .
qed

lemma fmask_numeral:
  "fmask s (numeral k) = (2 ^ s - 1) + 2 ^ (2 * s) * fmask s (pred_numeral k)"
  by (simp add: numeral_eq_Suc)

lemma fmask_one: "fmask s 1 = 2 ^ s - 1"
  by simp

lemma unat_pop_count_B:
  "unat (0x5555555555555555 :: u64) = fmask 1 32"
  "unat (0x3333333333333333 :: u64) = fmask 2 16"
  "unat (0x0f0f0f0f0f0f0f0f :: u64) = fmask 4 8"
  "unat (0x00ff00ff00ff00ff :: u64) = fmask 8 4"
  "unat (0x0000ffff0000ffff :: u64) = fmask 16 2"
  "unat (0x00000000ffffffff :: u64) = fmask 32 1"
  by (simp_all add: fmask_numeral fmask_one)

lemma upt_0_6: "[0..<6] = [0, 1, 2, 3, 4, 5]"
  by (simp add: upt_rec)

lemma pcn_unat: "pcn 64 (unat (w :: u64)) = count_ones w"
proof -
  have "filter (bit (unat w)) [0..<64] = filter (bit w) [0..<64]"
    by (rule filter_cong) (simp_all add: bit_unsigned_iff)
  then show ?thesis by (simp add: pcn_filter count_ones_def)
qed

lemma unat_pop_count: "unat (pop_count w) = count_ones w"
proof -
  define x where "x = unat w"
  have x: "x < 2 ^ 64" unfolding x_def using unsigned_less [of w] by simp
  define r0 where "r0 = pop_count_step 0 w"
  define r1 where "r1 = pop_count_step 1 r0"
  define r2 where "r2 = pop_count_step 2 r1"
  define r3 where "r3 = pop_count_step 3 r2"
  define r4 where "r4 = pop_count_step 4 r3"
  define r5 where "r5 = pop_count_step 5 r4"
  have s0: "unat w = pcf 1 (2 * 32) x"
    using x by (simp add: pcf_1 x_def)
  have s1: "unat r0 = pcf 2 (2 * 16) x"
    using unat_step [OF s0 unat_pop_count_B(1)]
    by (simp add: r0_def pop_count_step_def pop_count_B_def)
  have s2: "unat r1 = pcf 4 (2 * 8) x"
    using unat_step [OF s1 unat_pop_count_B(2)]
    by (simp add: r1_def pop_count_step_def pop_count_B_def)
  have s3: "unat r2 = pcf 8 (2 * 4) x"
    using unat_step [OF s2 unat_pop_count_B(3)]
    by (simp add: r2_def pop_count_step_def pop_count_B_def)
  have s4: "unat r3 = pcf 16 (2 * 2) x"
    using unat_step [OF s3 unat_pop_count_B(4)]
    by (simp add: r3_def pop_count_step_def pop_count_B_def)
  have s5: "unat r4 = pcf 32 (2 * 1) x"
    using unat_step [OF s4 unat_pop_count_B(5)]
    by (simp add: r4_def pop_count_step_def pop_count_B_def)
  have s6: "unat r5 = pcf 64 1 x"
    using unat_step [OF s5 unat_pop_count_B(6)]
    by (simp add: r5_def pop_count_step_def pop_count_B_def)
  have "unat r5 = count_ones w"
    using s6 by (simp add: pcn_unat x_def)
  moreover have "count_ones w \<le> 64"
    by (simp add: count_ones_def) (metis diff_zero length_filter_le length_upt)
  moreover have "pop_count w = ucast r5"
    by (simp add: pop_count_def upt_0_6 r0_def r1_def r2_def r3_def r4_def r5_def)
  ultimately show ?thesis
    by (simp add: unsigned_ucast_eq take_bit_eq_mod)
qed

lemma count_ones_card: "count_ones w = card {k. bit w k}"
proof -
  have "{k. bit w k} = set (filter (bit w) [0..<64])"
    by (auto dest: bit_imp_le_length)
  moreover have "distinct (filter (bit w) [0..<64])"
    by simp
  ultimately show ?thesis
    by (simp only: count_ones_def distinct_card)
qed

text \<open>
  Claim C8. For every 64-bit word, \<^verbatim>\<open>pop_count\<close> returns exactly the number of 1 bits of
  the word: the six mask-and-add steps leave the count of all 64 positions, and the
  conversion to \<^verbatim>\<open>uint8_t\<close> loses nothing.
\<close>

theorem pop_count_exact:
  "unat (pop_count w) = count_ones w \<and> count_ones w = card {k. bit w k}"
  using unat_pop_count [of w] count_ones_card [of w] by (rule conjI)

section \<open>Meta-rule selection\<close>

lemma and_1_of_bool: "drop_bit n (b::int) AND 1 = of_bool (bit b n)"
  by (simp add: and_one_eq mod_2_eq_odd bit_iff_odd_drop_bit)

lemma meta_term_of_bool:
  "meta_term rule (of_bool a) (of_bool b) (of_bool d) i =
     of_bool (bit rule i \<and> bit (int i) 2 = a \<and> bit (int i) 1 = b \<and> bit (int i) 0 = d)"
proof -
  have r: "int i AND 1 = of_bool (bit (int i) 0)"
    using and_1_of_bool [of 0 "int i"] by simp
  have a: "bit (uint rule) i = bit rule i"
    by (auto simp add: bit_uint_iff dest: bit_imp_le_length)
  show ?thesis
    unfolding meta_term_def Let_def and_1_of_bool r a
    by (cases "bit rule i"; cases "bit (int i) 2"; cases "bit (int i) 1"; cases "bit (int i) 0";
        cases a; cases b; cases d; simp)
qed

lemma meta_next_step_of_bool:
  assumes "density cp = of_bool a" "density c = of_bool b" "density cn = of_bool d"
  shows "meta_next_step rule cp c cn =
     of_bool (bit rule (4 * of_bool a + 2 * of_bool b + of_bool d))"
  unfolding meta_next_step_def Let_def assms upt_0_8
  apply (simp only: fold_simps meta_term_of_bool)
  apply (cases a; cases b; cases d; simp add: bit_iff_odd_drop_bit drop_bit_eq_div)
  done

lemma density_of_bool: "density w = of_bool (32 < count_ones w)"
  by (simp add: density_def unat_pop_count)

lemma meta_next_step_eq:
  "meta_next_step rule cp c cn =
     of_bool (bit rule (nat (4 * density cp + 2 * density c + density cn)))"
proof -
  have "nat (4 * density cp + 2 * density c + density cn) =
    4 * of_bool (32 < count_ones cp) + 2 * of_bool (32 < count_ones c)
    + of_bool (32 < count_ones cn)"
    by (simp add: density_of_bool)
  with meta_next_step_of_bool
    [OF density_of_bool density_of_bool density_of_bool, of rule cp c cn]
  show ?thesis by simp
qed

lemma meta_next_step_unroll:
  "meta_next_step rule cp c cn =
     meta_term rule (density cp) (density c) (density cn) 0
     OR meta_term rule (density cp) (density c) (density cn) 1
     OR meta_term rule (density cp) (density c) (density cn) 2
     OR meta_term rule (density cp) (density c) (density cn) 3
     OR meta_term rule (density cp) (density c) (density cn) 4
     OR meta_term rule (density cp) (density c) (density cn) 5
     OR meta_term rule (density cp) (density c) (density cn) 6
     OR meta_term rule (density cp) (density c) (density cn) 7"
  by (simp add: meta_next_step_def Let_def upt_0_8 or.assoc)

text \<open>
  Claim C3. \<^verbatim>\<open>ca1d_meta_rule_apply\<close> turns each of the three words into a density symbol
  that is 1 exactly when the number of 1 bits of the word exceeds 32. The term of pattern
  \<open>i\<close> is 1 when bit \<open>i\<close> of the meta-rule byte is 1 and the three symbols form the
  pattern \<open>i\<close> (left symbol worth 4, centre 2, right 1), and 0 otherwise. The eight terms
  are combined by OR into an integer between 0 and 7, which is the bit of the meta-rule
  byte selected by the density pattern of the three words, and the function returns the
  entry of the rule list at that index.
\<close>

theorem ca1d_meta_rule_apply_selects:
  "density w = of_bool (32 < count_ones w)
   \<and> count_ones w = card {k. bit w k}
   \<and> meta_term meta (of_bool a) (of_bool b) (of_bool d) i =
       of_bool (bit meta i \<and> 4 * of_bool a + 2 * of_bool b + of_bool d = i)
   \<and> meta_next_step meta cp c cn =
       (meta_term meta (density cp) (density c) (density cn) 0
        OR meta_term meta (density cp) (density c) (density cn) 1
        OR meta_term meta (density cp) (density c) (density cn) 2
        OR meta_term meta (density cp) (density c) (density cn) 3
        OR meta_term meta (density cp) (density c) (density cn) 4
        OR meta_term meta (density cp) (density c) (density cn) 5
        OR meta_term meta (density cp) (density c) (density cn) 6
        OR meta_term meta (density cp) (density c) (density cn) 7)
   \<and> meta_next_step meta cp c cn =
       of_bool (bit meta
         (4 * of_bool (32 < count_ones cp) + 2 * of_bool (32 < count_ones c)
          + of_bool (32 < count_ones cn)))
   \<and> 0 \<le> meta_next_step meta cp c cn \<and> meta_next_step meta cp c cn \<le> 7
   \<and> ca1d_meta_rule_apply rs meta cp c cn = rs ! nat (meta_next_step meta cp c cn)
   \<and> ca1d_meta_rule_apply rs meta cp c cn =
       rs ! of_bool (bit meta
         (4 * of_bool (32 < count_ones cp) + 2 * of_bool (32 < count_ones c)
          + of_bool (32 < count_ones cn)))"
proof -
  let ?p = "4 * of_bool (32 < count_ones cp) + 2 * of_bool (32 < count_ones c)
          + of_bool (32 < count_ones cn) :: nat"
  have t: "meta_term meta (of_bool a) (of_bool b) (of_bool d) i =
       of_bool (bit meta i \<and> 4 * of_bool a + 2 * of_bool b + of_bool d = i)"
  proof (cases "bit meta i")
    case False
    then show ?thesis by (simp add: meta_term_of_bool)
  next
    case True
    then have "i < 8" by (auto dest: bit_imp_le_length)
    from pattern_eq_iff [OF this, of a b d] True show ?thesis
      by (simp add: meta_term_of_bool)
  qed
  have idx: "meta_next_step meta cp c cn = of_bool (bit meta ?p)"
    using meta_next_step_of_bool
      [OF density_of_bool density_of_bool density_of_bool, of meta cp c cn]
    by simp
  then have rng: "0 \<le> meta_next_step meta cp c cn" "meta_next_step meta cp c cn \<le> 7"
    by simp_all
  have app: "ca1d_meta_rule_apply rs meta cp c cn = rs ! nat (meta_next_step meta cp c cn)"
    by (simp only: ca1d_meta_rule_apply_def)
  have app2: "ca1d_meta_rule_apply rs meta cp c cn = rs ! of_bool (bit meta ?p)"
    unfolding app idx by simp
  show ?thesis
    using density_of_bool [of w] count_ones_card [of w] t
      meta_next_step_unroll [of meta cp c cn] idx rng app app2
    by (intro conjI)
qed



section \<open>Row transitions\<close>

lemma fold_update_length:
  "length (fold (\<lambda>i nx. nx[i := f i]) js xs) = length xs"
  by (induction js arbitrary: xs) simp_all

lemma fold_update_nth:
  "j < length xs \<Longrightarrow>
     fold (\<lambda>i nx. nx[i := f i]) [a..<b] xs ! j = (if a \<le> j \<and> j < b then f j else xs ! j)"
proof (induction b)
  case 0
  then show ?case by simp
next
  case (Suc b)
  show ?case
  proof (cases "a \<le> b")
    case True
    with Suc show ?thesis
      by (auto simp add: fold_update_length nth_list_update less_Suc_eq)
  next
    case False
    with Suc show ?thesis by auto
  qed
qed

lemma row_shape:
  assumes "0 < w" and "length nxt = w"
  shows "(let next0 = nxt[0 := F];
              next1 = fold (\<lambda>i nx. nx[i := M i]) [1..<w - 1] next0;
              i = max 1 (w - 1)
          in if w \<le> i then Some next1 else Some (next1[i := L i]))
         = Some (map (\<lambda>c. if c = 0 then F else if c < w - 1 then M c else L c) [0..<w])"
proof -
  let ?n0 = "nxt[0 := F]"
  let ?n1 = "fold (\<lambda>i nx. nx[i := M i]) [1..<w - 1] ?n0"
  let ?r = "if w \<le> max 1 (w - 1) then ?n1 else ?n1[max 1 (w - 1) := L (max 1 (w - 1))]"
  let ?s = "map (\<lambda>c. if c = 0 then F else if c < w - 1 then M c else L c) [0..<w]"
  have len: "length ?r = w"
    using assms by (simp add: fold_update_length)
  have "?r = ?s"
  proof (rule nth_equalityI)
    show "length ?r = length ?s"
      using len by simp
  next
    fix j assume "j < length ?r"
    with len have j: "j < w" by simp
    then have n1: "?n1 ! j = (if 1 \<le> j \<and> j < w - 1 then M j else ?n0 ! j)"
      using assms by (intro fold_update_nth) simp
    show "?r ! j = ?s ! j"
      using j assms n1
      by (auto simp add: nth_list_update fold_update_length max_def)
  qed
  then show ?thesis unfolding Let_def by (auto split: if_splits)
qed

lemma ca1d_rule_apply_row_Some:
  assumes "0 < width g" and "length prev = width g" and "length cur = width g"
    and "length nxt = width g" and "length (rules g) = 256"
    and "width g = 1 \<or> rule_n g \<noteq> 0"
  shows "ca1d_rule_apply_row g prev cur nxt = Some (row_of (fixed_rule g) (width g) prev cur)"
proof -
  let ?w = "width g" and ?n = "unat (rule_n g)"
  let ?F = "ca1d_rule_apply (rules g ! 0)
              (cur ! (?w - 1)) (cur ! 0) (cur ! min 1 (?w - 1)) (prev ! 0)"
  let ?M = "\<lambda>i. ca1d_rule_apply (rules g ! (i mod ?n))
              (cur ! (i - 1)) (cur ! i) (cur ! (i + 1)) (prev ! i)"
  let ?L = "\<lambda>i. ca1d_rule_apply (rules g ! (i mod ?n))
              (cur ! (i - 1)) (cur ! i) (cur ! 0) (prev ! i)"
  have guard: "(?w = 0 \<or> length prev \<noteq> ?w \<or> length cur \<noteq> ?w \<or> length nxt \<noteq> ?w
         \<or> length (rules g) \<noteq> 256 \<or> (1 < ?w \<and> ?n = 0)) = False"
    using assms by (auto simp add: unat_eq_0)
  have "ca1d_rule_apply_row g prev cur nxt =
    Some (map (\<lambda>c. if c = 0 then ?F else if c < ?w - 1 then ?M c else ?L c) [0..<?w])"
    unfolding ca1d_rule_apply_row_def Let_def
    by (simp only: guard if_False
        row_shape [OF assms(1) assms(4), where F = ?F and M = ?M and L = ?L, unfolded Let_def])
  also have "\<dots> = Some (row_of (fixed_rule g) ?w prev cur)"
    unfolding row_of_def fixed_rule_def
    using assms(1)
    by (auto simp add: left_nbr_def right_nbr_def min_def intro!: map_cong)
  finally show ?thesis .
qed

lemma ca1d_meta_rule_apply_row_Some:
  assumes "0 < width g" and "length prev = width g" and "length cur = width g"
    and "length nxt = width g" and "length (rules g) = 256"
  shows "ca1d_meta_rule_apply_row g prev cur nxt =
           Some (row_of (meta_sel g cur) (width g) prev cur)"
proof -
  let ?w = "width g"
  let ?sel = "\<lambda>a b d. ca1d_meta_rule_apply (rules g) (meta_rule g) a b d"
  let ?F = "ca1d_rule_apply (?sel (cur ! (?w - 1)) (cur ! 0) (cur ! min 1 (?w - 1)))
              (cur ! (?w - 1)) (cur ! 0) (cur ! min 1 (?w - 1)) (prev ! 0)"
  let ?M = "\<lambda>i. ca1d_rule_apply (?sel (cur ! (i - 1)) (cur ! i) (cur ! (i + 1)))
              (cur ! (i - 1)) (cur ! i) (cur ! (i + 1)) (prev ! i)"
  let ?L = "\<lambda>i. ca1d_rule_apply (?sel (cur ! (i - 1)) (cur ! i) (cur ! 0))
              (cur ! (i - 1)) (cur ! i) (cur ! 0) (prev ! i)"
  have guard: "(?w = 0 \<or> length prev \<noteq> ?w \<or> length cur \<noteq> ?w \<or> length nxt \<noteq> ?w
         \<or> length (rules g) \<noteq> 256) = False"
    using assms by auto
  have "ca1d_meta_rule_apply_row g prev cur nxt =
    Some (map (\<lambda>c. if c = 0 then ?F else if c < ?w - 1 then ?M c else ?L c) [0..<?w])"
    unfolding ca1d_meta_rule_apply_row_def Let_def
    by (simp only: guard if_False
        row_shape [OF assms(1) assms(4), where F = ?F and M = ?M and L = ?L, unfolded Let_def])
  also have "\<dots> = Some (row_of (meta_sel g cur) ?w prev cur)"
    unfolding row_of_def meta_sel_def
    using assms(1)
    by (auto simp add: left_nbr_def right_nbr_def min_def intro!: map_cong)
  finally show ?thesis .
qed

lemma length_row_of: "length (row_of sel w prev cur) = w"
  by (simp add: row_of_def)

lemma nth_row_of:
  "c < w \<Longrightarrow> row_of sel w prev cur ! c =
     ca1d_rule_apply (sel c) (cur ! left_nbr w c) (cur ! c) (cur ! right_nbr w c) (prev ! c)"
  by (simp add: row_of_def)

lemma row_of_involution:
  assumes "length prev = w"
  shows "row_of sel w (row_of sel w prev cur) cur = prev"
proof (rule nth_equalityI)
  show "length (row_of sel w (row_of sel w prev cur) cur) = length prev"
    using assms by (simp add: length_row_of)
next
  fix c assume "c < length (row_of sel w (row_of sel w prev cur) cur)"
  then have "c < w" by (simp add: length_row_of)
  then show "row_of sel w (row_of sel w prev cur) cur ! c = prev ! c"
    by (simp add: nth_row_of ca1d_rule_apply_involution)
qed

lemma length_row_spec: "length (row_spec g prev cur) = width g"
  by (simp add: row_spec_def length_row_of)

lemma ca1d_apply_row_eq:
  assumes "ca1d_ok g" and "length prev = width g" and "length cur = width g"
    and "length nxt = width g"
  shows "ca1d_apply_row g prev cur nxt = Some (row_spec g prev cur)"
proof (cases "meta_rule g = 0")
  case True
  then have "rule_sel g cur = fixed_rule g"
    by (simp add: rule_sel_def fun_eq_iff)
  with True assms show ?thesis
    unfolding ca1d_apply_row_def ca1d_ok_def row_spec_def
    by (simp add: ca1d_rule_apply_row_Some)
next
  case False
  then have "rule_sel g cur = meta_sel g cur"
    by (simp add: rule_sel_def fun_eq_iff)
  with False assms show ?thesis
    unfolding ca1d_apply_row_def ca1d_ok_def row_spec_def
    by (simp add: ca1d_meta_rule_apply_row_Some)
qed

text \<open>
  Claim C6. In both row functions and for every width of at least 1, column \<open>c\<close> of the
  new row is computed from word \<open>c\<close> of the current row and its toroidal neighbours: the
  left neighbour of word 0 is word \<open>width - 1\<close>, the right neighbour of word \<open>width - 1\<close> is
  word 0, and when the width is 1 both neighbours of the only word are the word itself.
\<close>

theorem row_neighbours_toroidal:
  assumes "1 \<le> width g" and "length prev = width g" and "length cur = width g"
    and "length nxt = width g" and "length (rules g) = 256" and "c < width g"
  shows "(width g = 1 \<or> rule_n g \<noteq> 0 \<longrightarrow>
      (\<exists>row. ca1d_rule_apply_row g prev cur nxt = Some row
         \<and> row ! c = ca1d_rule_apply (rules g ! (c mod unat (rule_n g)))
            (cur ! left_nbr (width g) c) (cur ! c) (cur ! right_nbr (width g) c) (prev ! c)))
      \<and> (\<exists>mrow. ca1d_meta_rule_apply_row g prev cur nxt = Some mrow
         \<and> mrow ! c = ca1d_rule_apply
            (ca1d_meta_rule_apply (rules g) (meta_rule g)
               (cur ! left_nbr (width g) c) (cur ! c) (cur ! right_nbr (width g) c))
            (cur ! left_nbr (width g) c) (cur ! c) (cur ! right_nbr (width g) c) (prev ! c))
      \<and> left_nbr (width g) c = (if c = 0 then width g - 1 else c - 1)
      \<and> right_nbr (width g) c = (if c = width g - 1 then 0 else c + 1)
      \<and> left_nbr (width g) 0 = width g - 1
      \<and> right_nbr (width g) (width g - 1) = 0
      \<and> (width g = 1 \<longrightarrow> left_nbr (width g) c = c \<and> right_nbr (width g) c = c)"
proof -
  have w: "0 < width g" using assms(1) by simp
  have "ca1d_rule_apply_row g prev cur nxt = Some (row_of (fixed_rule g) (width g) prev cur)"
    if "width g = 1 \<or> rule_n g \<noteq> 0"
    using w assms(2-5) that by (rule ca1d_rule_apply_row_Some)
  moreover have "ca1d_meta_rule_apply_row g prev cur nxt
      = Some (row_of (meta_sel g cur) (width g) prev cur)"
    using w assms(2-5) by (rule ca1d_meta_rule_apply_row_Some)
  ultimately show ?thesis
    using assms(6)
    by (auto simp add: nth_row_of meta_sel_def fixed_rule_def left_nbr_def right_nbr_def)
qed

theorem row_neighbours_toroidal_witness:
  "(\<exists>row.
      ca1d_rule_apply_row
        \<lparr>width = 2, height = 2, rule_n = 1, rules = 110 # replicate 255 0,
         reversible = False, meta_rule = 0, init = [0, 1]\<rparr> [0, 0] [1, 2] [0, 0] = Some row
      \<and> row ! 0 = ca1d_rule_apply 110 2 1 2 0)
   \<and> (\<exists>mrow.
      ca1d_meta_rule_apply_row
        \<lparr>width = 2, height = 2, rule_n = 1, rules = 110 # replicate 255 0,
         reversible = False, meta_rule = 0, init = [0, 1]\<rparr> [0, 0] [1, 2] [0, 0] = Some mrow
      \<and> mrow ! 0 = ca1d_rule_apply 110 2 1 2 0)
   \<and> left_nbr 2 0 = 1 \<and> right_nbr 2 1 = 0 \<and> left_nbr 1 0 = 0 \<and> right_nbr 1 0 = 0"
  using row_neighbours_toroidal
    [of "\<lparr>width = 2, height = 2, rule_n = 1, rules = 110 # replicate 255 0,
         reversible = False, meta_rule = 0, init = [0, 1]\<rparr>" "[0, 0]" "[1, 2]" "[0, 0]" 0]
  by (simp add: ca1d_meta_rule_apply_def meta_next_step_eq left_nbr_def right_nbr_def)

section \<open>The run\<close>

lemma steps_ok_nth: "steps_ok g steps \<Longrightarrow> j < height g \<Longrightarrow> length (steps ! j) = width g"
  by (simp add: steps_ok_def list_all_length)

lemma steps_ok_update:
  "steps_ok g steps \<Longrightarrow> length row = width g \<Longrightarrow> steps_ok g (steps[j := row])"
  using set_update_subset_insert [of steps j row]
  by (auto simp add: steps_ok_def list_all_iff)

lemma length_carry_row:
  "steps_ok g m \<Longrightarrow> gen < height g \<Longrightarrow> length (carry_row g m gen) = width g"
  by (simp add: carry_row_def steps_ok_nth)

lemma rows_upto_update:
  assumes "rows_upto g steps i" and "1 \<le> i"
    and "row = row_spec g (carry_row g steps i) (steps ! (i - 1))"
    and "i < length steps"
  shows "rows_upto g (steps[i := row]) (Suc i)"
  unfolding rows_upto_def
proof (intro allI impI)
  fix gen assume gen: "1 \<le> gen \<and> gen < Suc i"
  let ?m = "steps[i := row]"
  have "?m ! (gen - 2) = steps ! (gen - 2)" if "2 \<le> gen"
  proof -
    from that gen have "i \<noteq> gen - 2" by arith
    then show ?thesis by (rule nth_list_update_neq)
  qed
  then have c: "carry_row g ?m gen = carry_row g steps gen"
    by (simp add: carry_row_def)
  have p: "?m ! (gen - 1) = steps ! (gen - 1)"
  proof -
    from gen have "i \<noteq> gen - 1" by arith
    then show ?thesis by (rule nth_list_update_neq)
  qed
  show "?m ! gen = row_spec g (carry_row g ?m gen) (?m ! (gen - 1))"
  proof (cases "gen = i")
    case True
    with assms(3,4) show ?thesis unfolding c p by simp
  next
    case False
    with gen have "gen < i" by simp
    with gen assms(1)
    have "steps ! gen = row_spec g (carry_row g steps gen) (steps ! (gen - 1))"
      by (simp add: rows_upto_def)
    with False show ?thesis unfolding c p by simp
  qed
qed

lemma ca1d_run_loop_spec:
  assumes "ca1d_ok g" and "steps_ok g steps" and "1 \<le> i" and "i < height g"
    and "nxt = i" and "cur = i - 1"
    and "prev = (if reversible g \<and> 2 \<le> i then Step (i - 2) else Zeroes)"
    and "rows_upto g steps i"
  shows "\<exists>m. ca1d_run_loop g prev cur nxt i steps = Some m \<and> steps_ok g m
           \<and> m ! 0 = steps ! 0 \<and> rows_upto g m (height g)"
  using assms
proof (induction g prev cur nxt i steps rule: ca1d_run_loop.induct)
  case (1 g prev cur nxt i steps)
  have len: "length steps = height g"
    using "1.prems"(2) by (simp add: steps_ok_def)
  have pr: "row_at g steps prev = carry_row g steps i"
    using "1.prems"(7) by (simp add: row_at_def carry_row_def)
  have ins: "in_steps steps prev"
    using "1.prems"(4,7) len by (auto simp add: in_steps_def)
  define row where "row = row_spec g (carry_row g steps i) (steps ! (i - 1))"
  have app: "ca1d_apply_row g (row_at g steps prev) (steps ! cur) (steps ! nxt) = Some row"
    unfolding pr row_def "1.prems"(5,6)
    using "1.prems"(1,2,3,4)
    by (intro ca1d_apply_row_eq) (simp_all add: length_carry_row steps_ok_nth)
  let ?steps' = "steps[nxt := row]"
  have ok': "steps_ok g ?steps'"
    using "1.prems"(2) by (rule steps_ok_update) (simp add: row_def length_row_spec)
  have up': "rows_upto g ?steps' (Suc i)"
    unfolding "1.prems"(5)
    using "1.prems"(8,3) row_def "1.prems"(4) [folded len] by (rule rows_upto_update)
  have z: "?steps' ! 0 = steps ! 0"
    using "1.prems"(3,5) by simp
  have guard: "\<not> (\<not> in_steps steps prev \<or> length steps \<le> cur \<or> length steps \<le> nxt)"
    using ins len "1.prems"(4,5,6) by simp
  show ?case
  proof (cases "height g \<le> i + 1")
    case True
    with "1.prems"(4) have "Suc i = height g" by simp
    with up' have "rows_upto g ?steps' (height g)" by simp
    moreover have "ca1d_run_loop g prev cur nxt i steps = Some ?steps'"
      using guard app True by (subst ca1d_run_loop.simps) simp
    ultimately show ?thesis using ok' z by simp
  next
    case False
    let ?prev' = "if reversible g then Step cur else Zeroes"
    have step: "ca1d_run_loop g prev cur nxt i steps
        = ca1d_run_loop g ?prev' nxt (i + 1) (i + 1) ?steps'"
      using guard app False by (subst ca1d_run_loop.simps) simp
    have "\<exists>m. ca1d_run_loop g ?prev' nxt (i + 1) (i + 1) ?steps' = Some m \<and> steps_ok g m
           \<and> m ! 0 = ?steps' ! 0 \<and> rows_upto g m (height g)"
    proof (rule "1.IH" [OF guard app False])
      show "ca1d_ok g" by (rule "1.prems"(1))
      show "steps_ok g ?steps'" by (rule ok')
      show "1 \<le> i + 1" by simp
      show "i + 1 < height g" using False by simp
      show "i + 1 = i + 1" ..
      show "nxt = i + 1 - 1" using "1.prems"(5) by simp
      show "?prev' = (if reversible g \<and> 2 \<le> i + 1 then Step (i + 1 - 2) else Zeroes)"
        using "1.prems"(3,6) by auto
      show "rows_upto g ?steps' (i + 1)" using up' by simp
    qed
    with step z show ?thesis by simp
  qed
qed

lemma ca1d_run_spec:
  assumes "ca1d_ok g" and "steps_ok g steps"
  shows "\<exists>m. ca1d_run g steps = Some m \<and> steps_ok g m \<and> m ! 0 = init g
           \<and> rows_upto g m (height g)"
proof -
  let ?s0 = "steps[0 := init g]"
  have h: "2 \<le> height g" and li: "length (init g) = width g"
    using assms(1) by (simp_all add: ca1d_ok_def)
  have len: "length steps = height g"
    using assms(2) by (simp add: steps_ok_def)
  have ok0: "steps_ok g ?s0"
    using assms(2) li by (rule steps_ok_update)
  have "\<exists>m. ca1d_run_loop g Zeroes 0 1 1 ?s0 = Some m \<and> steps_ok g m
           \<and> m ! 0 = ?s0 ! 0 \<and> rows_upto g m (height g)"
    using assms(1) ok0
  proof (rule ca1d_run_loop_spec)
    show "1 \<le> (1::nat)" by simp
    show "1 < height g" using h by simp
    show "(1::nat) = 1" ..
    show "(0::nat) = 1 - 1" by simp
    show "Zeroes = (if reversible g \<and> 2 \<le> (1::nat) then Step (1 - 2) else Zeroes)" by simp
    show "rows_upto g ?s0 1" by (simp add: rows_upto_def)
  qed
  moreover have "ca1d_run g steps = ca1d_run_loop g Zeroes 0 1 1 ?s0"
    using h li len by (simp add: ca1d_run_def)
  moreover have "?s0 ! 0 = init g"
    using h len by simp
  ultimately show ?thesis by simp
qed

lemma rows_upto_nth:
  assumes "rows_upto g m (height g)" and "1 \<le> gen" and "gen < height g" and "c < width g"
  shows "m ! gen ! c = ca1d_rule_apply (rule_sel g (m ! (gen - 1)) c)
           (m ! (gen - 1) ! left_nbr (width g) c) (m ! (gen - 1) ! c)
           (m ! (gen - 1) ! right_nbr (width g) c)
           (if reversible g \<and> 2 \<le> gen then m ! (gen - 2) ! c else 0)"
proof -
  from assms(1-3) have "m ! gen = row_spec g (carry_row g m gen) (m ! (gen - 1))"
    by (simp add: rows_upto_def)
  then show ?thesis
    using assms(4) by (simp add: row_spec_def nth_row_of carry_row_def)
qed

text \<open>
  Claim C7. In every run of a well-formed configuration, the carry word of every column of
  row 1 is the all-zero word, whatever the reversible flag; for every generation
  \<open>gen \<ge> 2\<close> the carry word of column \<open>c\<close> is word \<open>c\<close> of row \<open>gen - 2\<close> when the flag is
  set, and the all-zero word when it is not.
\<close>

theorem ca1d_run_carry_words:
  assumes "ca1d_ok g" and "steps_ok g steps"
  shows "\<exists>m. ca1d_run g steps = Some m \<and> length m = height g \<and> m ! 0 = init g
     \<and> (\<forall>c<width g. m ! 1 ! c =
           ca1d_rule_apply (rule_sel g (m ! 0) c)
             (m ! 0 ! left_nbr (width g) c) (m ! 0 ! c) (m ! 0 ! right_nbr (width g) c) 0)
     \<and> (\<forall>gen c. 2 \<le> gen \<and> gen < height g \<and> c < width g \<longrightarrow>
           m ! gen ! c =
             ca1d_rule_apply (rule_sel g (m ! (gen - 1)) c)
               (m ! (gen - 1) ! left_nbr (width g) c) (m ! (gen - 1) ! c)
               (m ! (gen - 1) ! right_nbr (width g) c)
               (if reversible g then m ! (gen - 2) ! c else 0))"
proof -
  from ca1d_run_spec [OF assms] obtain m
    where m: "ca1d_run g steps = Some m" "steps_ok g m" "m ! 0 = init g"
      "rows_upto g m (height g)"
    by blast
  have h: "1 < height g" using assms(1) by (simp add: ca1d_ok_def)
  have "m ! 1 ! c = ca1d_rule_apply (rule_sel g (m ! 0) c)
      (m ! 0 ! left_nbr (width g) c) (m ! 0 ! c) (m ! 0 ! right_nbr (width g) c) 0"
    if "c < width g" for c
    using rows_upto_nth [OF m(4) _ h that] by simp
  moreover have "m ! gen ! c = ca1d_rule_apply (rule_sel g (m ! (gen - 1)) c)
      (m ! (gen - 1) ! left_nbr (width g) c) (m ! (gen - 1) ! c)
      (m ! (gen - 1) ! right_nbr (width g) c)
      (if reversible g then m ! (gen - 2) ! c else 0)"
    if "2 \<le> gen \<and> gen < height g \<and> c < width g" for gen c
    using rows_upto_nth [OF m(4), of gen c] that by simp
  ultimately show ?thesis
    using m(1,2,3) by (auto simp add: steps_ok_def)
qed

theorem ca1d_run_carry_words_witness:
  "ca1d_ok \<lparr>width = 1, height = 3, rule_n = 1, rules = 110 # replicate 255 0,
            reversible = True, meta_rule = 0, init = [1]\<rparr>
   \<and> steps_ok \<lparr>width = 1, height = 3, rule_n = 1, rules = 110 # replicate 255 0,
            reversible = True, meta_rule = 0, init = [1]\<rparr> [[0], [0], [0]]
   \<and> (\<exists>m. ca1d_run
          \<lparr>width = 1, height = 3, rule_n = 1, rules = 110 # replicate 255 0,
           reversible = True, meta_rule = 0, init = [1]\<rparr> [[0], [0], [0]] = Some m
     \<and> m ! 0 = [1]
     \<and> m ! 1 ! 0 = ca1d_rule_apply 110 1 1 1 0
     \<and> m ! 2 ! 0 = ca1d_rule_apply 110 (m ! 1 ! 0) (m ! 1 ! 0) (m ! 1 ! 0) 1)"
proof -
  let ?g = "\<lparr>width = 1, height = 3, rule_n = 1, rules = 110 # replicate 255 0,
            reversible = True, meta_rule = 0, init = [1]\<rparr>"
  have ok: "ca1d_ok ?g" by (simp add: ca1d_ok_def)
  have st: "steps_ok ?g [[0], [0], [0]]" by (simp add: steps_ok_def)
  from ca1d_run_carry_words [OF ok st] obtain m
    where m: "ca1d_run ?g [[0], [0], [0]] = Some m" "m ! 0 = init ?g"
      and r1: "\<forall>c<width ?g. m ! 1 ! c =
           ca1d_rule_apply (rule_sel ?g (m ! 0) c)
             (m ! 0 ! left_nbr (width ?g) c) (m ! 0 ! c) (m ! 0 ! right_nbr (width ?g) c) 0"
      and r2: "\<forall>gen c. 2 \<le> gen \<and> gen < height ?g \<and> c < width ?g \<longrightarrow>
           m ! gen ! c =
             ca1d_rule_apply (rule_sel ?g (m ! (gen - 1)) c)
               (m ! (gen - 1) ! left_nbr (width ?g) c) (m ! (gen - 1) ! c)
               (m ! (gen - 1) ! right_nbr (width ?g) c)
               (if reversible ?g then m ! (gen - 2) ! c else 0)"
    by blast
  from r1 [rule_format, of 0] m(2)
  have "m ! 1 ! 0 = ca1d_rule_apply 110 1 1 1 0"
    by (simp add: rule_sel_def fixed_rule_def left_nbr_def right_nbr_def)
  moreover from r2 [rule_format, of 2 0] m(2)
  have "m ! 2 ! 0 = ca1d_rule_apply 110 (m ! 1 ! 0) (m ! 1 ! 0) (m ! 1 ! 0) 1"
    by (simp add: rule_sel_def fixed_rule_def left_nbr_def right_nbr_def)
  ultimately show ?thesis using ok st m by simp
qed

text \<open>
  Claim C2. In a run with the reversible flag set, for every generation \<open>gen \<ge> 2\<close> the
  row transition applied with row \<open>gen - 1\<close> as the current row and row \<open>gen\<close> in the place
  of the carry row returns exactly row \<open>gen - 2\<close>; column by column, the rule that
  produced word \<open>c\<close> of row \<open>gen\<close>, applied to the same three neighbour words with that
  word as the carry word, gives word \<open>c\<close> of row \<open>gen - 2\<close>.
\<close>

theorem ca1d_run_reversible_round_trip:
  assumes "ca1d_ok g" and "steps_ok g steps" and "reversible g"
  shows "\<exists>m. ca1d_run g steps = Some m
     \<and> (\<forall>gen. 2 \<le> gen \<and> gen < height g \<longrightarrow>
          (\<forall>buf. length buf = width g \<longrightarrow>
             ca1d_apply_row g (m ! gen) (m ! (gen - 1)) buf = Some (m ! (gen - 2)))
          \<and> (\<forall>c<width g.
               ca1d_rule_apply (rule_sel g (m ! (gen - 1)) c)
                 (m ! (gen - 1) ! left_nbr (width g) c) (m ! (gen - 1) ! c)
                 (m ! (gen - 1) ! right_nbr (width g) c) (m ! gen ! c)
               = m ! (gen - 2) ! c))"
proof -
  from ca1d_run_spec [OF assms(1,2)] obtain m
    where m: "ca1d_run g steps = Some m" "steps_ok g m" "m ! 0 = init g"
      "rows_upto g m (height g)"
    by blast
  have "(\<forall>buf. length buf = width g \<longrightarrow>
             ca1d_apply_row g (m ! gen) (m ! (gen - 1)) buf = Some (m ! (gen - 2)))
          \<and> (\<forall>c<width g.
               ca1d_rule_apply (rule_sel g (m ! (gen - 1)) c)
                 (m ! (gen - 1) ! left_nbr (width g) c) (m ! (gen - 1) ! c)
                 (m ! (gen - 1) ! right_nbr (width g) c) (m ! gen ! c)
               = m ! (gen - 2) ! c)"
    if gen: "2 \<le> gen \<and> gen < height g" for gen
  proof -
    have l2: "length (m ! (gen - 2)) = width g" and l1: "length (m ! (gen - 1)) = width g"
      and l0: "length (m ! gen) = width g"
    proof -
      from gen have "gen - 2 < height g" and "gen - 1 < height g" and "gen < height g"
        by arith+
      with m(2) show "length (m ! (gen - 2)) = width g" and "length (m ! (gen - 1)) = width g"
        and "length (m ! gen) = width g"
        by (simp_all only: steps_ok_nth)
    qed
    from m(4) gen assms(3)
    have row: "m ! gen = row_spec g (m ! (gen - 2)) (m ! (gen - 1))"
      by (simp add: rows_upto_def carry_row_def)
    have inv: "row_spec g (m ! gen) (m ! (gen - 1)) = m ! (gen - 2)"
      unfolding row row_spec_def using l2 by (rule row_of_involution)
    have "ca1d_apply_row g (m ! gen) (m ! (gen - 1)) buf = Some (m ! (gen - 2))"
      if "length buf = width g" for buf
      using ca1d_apply_row_eq [OF assms(1) l0 l1 that] inv by simp
    moreover have "ca1d_rule_apply (rule_sel g (m ! (gen - 1)) c)
                 (m ! (gen - 1) ! left_nbr (width g) c) (m ! (gen - 1) ! c)
                 (m ! (gen - 1) ! right_nbr (width g) c) (m ! gen ! c)
               = m ! (gen - 2) ! c"
      if "c < width g" for c
      using arg_cong [OF inv, of "\<lambda>r. r ! c"] that
      by (simp add: row_spec_def nth_row_of)
    ultimately show ?thesis by blast
  qed
  with m(1) show ?thesis by blast
qed

theorem ca1d_run_reversible_round_trip_witness:
  "ca1d_ok \<lparr>width = 1, height = 3, rule_n = 1, rules = 110 # replicate 255 0,
            reversible = True, meta_rule = 0, init = [1]\<rparr>
   \<and> steps_ok \<lparr>width = 1, height = 3, rule_n = 1, rules = 110 # replicate 255 0,
            reversible = True, meta_rule = 0, init = [1]\<rparr> [[0], [0], [0]]
   \<and> (\<exists>m. ca1d_run
          \<lparr>width = 1, height = 3, rule_n = 1, rules = 110 # replicate 255 0,
           reversible = True, meta_rule = 0, init = [1]\<rparr> [[0], [0], [0]] = Some m
     \<and> ca1d_apply_row
          \<lparr>width = 1, height = 3, rule_n = 1, rules = 110 # replicate 255 0,
           reversible = True, meta_rule = 0, init = [1]\<rparr> (m ! 2) (m ! 1) [0] = Some (m ! 0)
     \<and> ca1d_rule_apply 110 (m ! 1 ! 0) (m ! 1 ! 0) (m ! 1 ! 0) (m ! 2 ! 0) = m ! 0 ! 0)"
proof -
  let ?g = "\<lparr>width = 1, height = 3, rule_n = 1, rules = 110 # replicate 255 0,
            reversible = True, meta_rule = 0, init = [1]\<rparr>"
  have ok: "ca1d_ok ?g" by (simp add: ca1d_ok_def)
  have st: "steps_ok ?g [[0], [0], [0]]" by (simp add: steps_ok_def)
  have rv: "reversible ?g" by simp
  from ca1d_run_reversible_round_trip [OF ok st rv] obtain m
    where m: "ca1d_run ?g [[0], [0], [0]] = Some m"
      and r: "\<forall>gen. 2 \<le> gen \<and> gen < height ?g \<longrightarrow>
          (\<forall>buf. length buf = width ?g \<longrightarrow>
             ca1d_apply_row ?g (m ! gen) (m ! (gen - 1)) buf = Some (m ! (gen - 2)))
          \<and> (\<forall>c<width ?g.
               ca1d_rule_apply (rule_sel ?g (m ! (gen - 1)) c)
                 (m ! (gen - 1) ! left_nbr (width ?g) c) (m ! (gen - 1) ! c)
                 (m ! (gen - 1) ! right_nbr (width ?g) c) (m ! gen ! c)
               = m ! (gen - 2) ! c)"
    by blast
  from r [rule_format, of 2]
  have a: "\<forall>buf. length buf = width ?g \<longrightarrow>
             ca1d_apply_row ?g (m ! 2) (m ! (2 - 1)) buf = Some (m ! (2 - 2))"
    and b: "\<forall>c<width ?g.
               ca1d_rule_apply (rule_sel ?g (m ! (2 - 1)) c)
                 (m ! (2 - 1) ! left_nbr (width ?g) c) (m ! (2 - 1) ! c)
                 (m ! (2 - 1) ! right_nbr (width ?g) c) (m ! 2 ! c)
               = m ! (2 - 2) ! c"
    by simp_all
  from a [rule_format, of "[0]"]
  have "ca1d_apply_row ?g (m ! 2) (m ! 1) [0] = Some (m ! 0)"
    by simp
  moreover from b [rule_format, of 0]
  have "ca1d_rule_apply 110 (m ! 1 ! 0) (m ! 1 ! 0) (m ! 1 ! 0) (m ! 2 ! 0) = m ! 0 ! 0"
    by (simp add: rule_sel_def fixed_rule_def left_nbr_def right_nbr_def)
  ultimately show ?thesis using ok st m by simp
qed

section \<open>A meta rule of zero\<close>

lemma ca1d_meta_rule_apply_zero: "ca1d_meta_rule_apply rs 0 cp c cn = rs ! 0"
  by (simp add: ca1d_meta_rule_apply_def meta_next_step_eq)

lemma ca1d_rule_apply_zero_rule: "ca1d_rule_apply 0 cp c cn carry = carry"
  by (rule bit_eqI) (auto simp add: bit_ca1d_rule_apply dest: bit_imp_le_length)

lemma ca1d_rule_apply_full_rule: "ca1d_rule_apply 255 cp c cn 0 = - 1"
proof (rule bit_eqI)
  fix k
  have "nbr_pattern (ca1d_l cp c) c (ca1d_r c cn) k \<in> {0, 1, 2, 3, 4, 5, 6, 7}"
    by (simp add: nbr_pattern_def)
  then have "bit (255 :: u8) (nbr_pattern (ca1d_l cp c) c (ca1d_r c cn) k)"
    by (elim insertE emptyE) simp_all
  then show "bit (ca1d_rule_apply 255 cp c cn 0) k = bit (- 1 :: u64) k"
    by (simp add: bit_ca1d_rule_apply bit_simps)
qed

text \<open>
  The run never calls the meta row function with a meta rule of 0. Called so, it gives
  every column the rule \<^verbatim>\<open>rules[0]\<close>, which is the non-meta row when every column's rule
  \<^verbatim>\<open>rules[c % rule_n]\<close> is \<^verbatim>\<open>rules[0]\<close>; with two words per row and the rule list 0, 255
  the two rows differ.
\<close>

lemma meta_row_function_at_zero:
  assumes "meta_rule g = 0" and "width g = 1 \<or> rule_n g \<noteq> 0"
    and "\<forall>col<width g. rules g ! (col mod unat (rule_n g)) = rules g ! 0"
  shows "ca1d_meta_rule_apply_row g prev cur nxt = ca1d_rule_apply_row g prev cur nxt"
proof (cases "0 < width g \<and> length prev = width g \<and> length cur = width g
    \<and> length nxt = width g \<and> length (rules g) = 256")
  case True
  then have m: "ca1d_meta_rule_apply_row g prev cur nxt
      = Some (row_of (meta_sel g cur) (width g) prev cur)"
    by (intro ca1d_meta_rule_apply_row_Some) simp_all
  from True assms(2) have f: "ca1d_rule_apply_row g prev cur nxt
      = Some (row_of (fixed_rule g) (width g) prev cur)"
    by (intro ca1d_rule_apply_row_Some) simp_all
  have "row_of (meta_sel g cur) (width g) prev cur = row_of (fixed_rule g) (width g) prev cur"
    unfolding row_of_def using assms(1,3)
    by (intro map_cong) (simp_all add: meta_sel_def fixed_rule_def ca1d_meta_rule_apply_zero)
  with m f show ?thesis by simp
next
  case False
  then have "ca1d_meta_rule_apply_row g prev cur nxt = None"
    and "ca1d_rule_apply_row g prev cur nxt = None"
    by (auto simp add: ca1d_meta_rule_apply_row_def ca1d_rule_apply_row_def Let_def)
  then show ?thesis by simp
qed

lemma meta_row_function_at_zero_two_rules:
  "ca1d_meta_rule_apply_row
        \<lparr>width = 2, height = 2, rule_n = 2, rules = 0 # 255 # replicate 254 0,
         reversible = False, meta_rule = 0, init = [0, 0]\<rparr> [0, 0] [0, 0] [0, 0]
       = Some [0, 0]
   \<and> ca1d_rule_apply_row
        \<lparr>width = 2, height = 2, rule_n = 2, rules = 0 # 255 # replicate 254 0,
         reversible = False, meta_rule = 0, init = [0, 0]\<rparr> [0, 0] [0, 0] [0, 0]
       = Some [0, - 1]"
proof -
  let ?g = "\<lparr>width = 2, height = 2, rule_n = 2, rules = 0 # 255 # replicate 254 0,
         reversible = False, meta_rule = 0, init = [0, 0]\<rparr>"
  have u: "[0..<2] = [0, 1]" by (simp add: upt_rec)
  have "ca1d_meta_rule_apply_row ?g [0, 0] [0, 0] [0, 0]
      = Some (row_of (meta_sel ?g [0, 0]) (width ?g) [0, 0] [0, 0])"
    by (rule ca1d_meta_rule_apply_row_Some) simp_all
  moreover have "row_of (meta_sel ?g [0, 0]) (width ?g) [0, 0] [0, 0] = [0, 0]"
    by (simp add: row_of_def u meta_sel_def ca1d_meta_rule_apply_zero ca1d_rule_apply_zero_rule)
  moreover have "ca1d_rule_apply_row ?g [0, 0] [0, 0] [0, 0]
      = Some (row_of (fixed_rule ?g) (width ?g) [0, 0] [0, 0])"
    by (rule ca1d_rule_apply_row_Some) simp_all
  moreover have "row_of (fixed_rule ?g) (width ?g) [0, 0] [0, 0] = [0, - 1]"
    by (simp add: row_of_def u fixed_rule_def ca1d_rule_apply_zero_rule
        ca1d_rule_apply_full_rule left_nbr_def right_nbr_def)
  ultimately show ?thesis by simp
qed

text \<open>
  Claim C9, as stated, fails on the code. With a meta rule of 0 the selection of
  \<^verbatim>\<open>ca1d_meta_rule_apply\<close> is \<^verbatim>\<open>rules[0]\<close>, but the non-meta path, which the run takes,
  gives column \<open>c\<close> the rule \<^verbatim>\<open>rules[c % rule_n]\<close>. With two words per row and the rule
  list 0, 255 the selection is rule 0 and the meta row function leaves an all-zero row
  all-zero, while the non-meta path and the run fill the second word with ones: column 1
  is computed with \<^verbatim>\<open>rules[1]\<close>.
\<close>

theorem meta_rule_zero_counterexample:
  "meta_rule \<lparr>width = 2, height = 2, rule_n = 2, rules = 0 # 255 # replicate 254 0,
              reversible = False, meta_rule = 0, init = [0, 0]\<rparr> = 0
   \<and> ca1d_meta_rule_apply (0 # 255 # replicate 254 0) 0 0 0 0 = 0
   \<and> ca1d_meta_rule_apply_row
        \<lparr>width = 2, height = 2, rule_n = 2, rules = 0 # 255 # replicate 254 0,
         reversible = False, meta_rule = 0, init = [0, 0]\<rparr> [0, 0] [0, 0] [0, 0]
       = Some [0, 0]
   \<and> ca1d_rule_apply_row
        \<lparr>width = 2, height = 2, rule_n = 2, rules = 0 # 255 # replicate 254 0,
         reversible = False, meta_rule = 0, init = [0, 0]\<rparr> [0, 0] [0, 0] [0, 0]
       = Some [0, - 1]
   \<and> ca1d_run
        \<lparr>width = 2, height = 2, rule_n = 2, rules = 0 # 255 # replicate 254 0,
         reversible = False, meta_rule = 0, init = [0, 0]\<rparr> [[0, 0], [0, 0]]
       = Some [[0, 0], [0, - 1]]"
proof -
  let ?g = "\<lparr>width = 2, height = 2, rule_n = 2, rules = 0 # 255 # replicate 254 0,
         reversible = False, meta_rule = 0, init = [0, 0]\<rparr>"
  note rows = meta_row_function_at_zero_two_rules
  have rep: "replicate 2 (0 :: u64) = [0, 0]"
    by (simp add: numeral_2_eq_2)
  have "ca1d_run ?g [[0, 0], [0, 0]] = ca1d_run_loop ?g Zeroes 0 1 1 [[0, 0], [0, 0]]"
    by (simp add: ca1d_run_def)
  also have "\<dots> = Some [[0, 0], [0, - 1]]"
    using rows
    by (subst ca1d_run_loop.simps)
      (simp add: in_steps_def row_at_def rep ca1d_apply_row_def)
  finally show ?thesis
    using rows by (simp add: ca1d_meta_rule_apply_zero)
qed

text \<open>
  Claim C9, amended. With a meta rule of 0, \<^verbatim>\<open>ca1d_meta_rule_apply\<close> returns \<^verbatim>\<open>rules[0]\<close>
  for every neighbourhood, but the run does not consult it: its row update is the
  non-meta path, in which column \<open>c\<close> is computed with the rule \<^verbatim>\<open>rules[c % rule_n]\<close>, for
  every current row and every rule list. The meta row function run with a meta rule of 0
  produces the same next row as the non-meta path for every current row whenever the
  rule list gives every column the rule \<^verbatim>\<open>rules[0]\<close>, as a list of one rule or a row of
  one word does.
\<close>

theorem meta_rule_zero_selection:
  "ca1d_meta_rule_apply rs 0 cp c cn = rs ! 0
   \<and> (meta_rule g = 0 \<and> ca1d_ok g \<and> steps_ok g steps \<longrightarrow>
        (\<exists>m. ca1d_run g steps = Some m
           \<and> (\<forall>gen buf. 1 \<le> gen \<and> gen < height g \<and> length buf = width g \<longrightarrow>
                ca1d_rule_apply_row g (carry_row g m gen) (m ! (gen - 1)) buf
                  = Some (m ! gen))
           \<and> (\<forall>gen col. 1 \<le> gen \<and> gen < height g \<and> col < width g \<longrightarrow>
                m ! gen ! col =
                  ca1d_rule_apply (rules g ! (col mod unat (rule_n g)))
                    (m ! (gen - 1) ! left_nbr (width g) col) (m ! (gen - 1) ! col)
                    (m ! (gen - 1) ! right_nbr (width g) col)
                    (if reversible g \<and> 2 \<le> gen then m ! (gen - 2) ! col else 0))))
   \<and> (meta_rule g = 0 \<and> (width g = 1 \<or> rule_n g \<noteq> 0)
        \<and> (\<forall>col<width g. rules g ! (col mod unat (rule_n g)) = rules g ! 0) \<longrightarrow>
        ca1d_meta_rule_apply_row g prev cur nxt = ca1d_rule_apply_row g prev cur nxt)"
proof (intro conjI impI)
  show "ca1d_meta_rule_apply rs 0 cp c cn = rs ! 0"
    by (rule ca1d_meta_rule_apply_zero)
next
  assume a: "meta_rule g = 0 \<and> (width g = 1 \<or> rule_n g \<noteq> 0)
        \<and> (\<forall>col<width g. rules g ! (col mod unat (rule_n g)) = rules g ! 0)"
  then show "ca1d_meta_rule_apply_row g prev cur nxt = ca1d_rule_apply_row g prev cur nxt"
    by (intro meta_row_function_at_zero) simp_all
next
  assume a: "meta_rule g = 0 \<and> ca1d_ok g \<and> steps_ok g steps"
  then have z: "meta_rule g = 0" and ok: "ca1d_ok g" and st: "steps_ok g steps"
    by simp_all
  from ca1d_run_spec [OF ok st] obtain m
    where m: "ca1d_run g steps = Some m" "steps_ok g m" "rows_upto g m (height g)"
    by blast
  have r1: "ca1d_rule_apply_row g (carry_row g m gen) (m ! (gen - 1)) buf = Some (m ! gen)"
    if h: "1 \<le> gen \<and> gen < height g \<and> length buf = width g" for gen buf
  proof -
    from h have "gen - 1 < height g" and g: "gen < height g" by arith+
    with m(2) have l1: "length (m ! (gen - 1)) = width g"
      and lc: "length (carry_row g m gen) = width g"
      by (simp_all only: steps_ok_nth length_carry_row)
    from h have lb: "length buf = width g" by simp
    from m(3) h have "m ! gen = row_spec g (carry_row g m gen) (m ! (gen - 1))"
      by (simp add: rows_upto_def)
    moreover have "ca1d_apply_row g (carry_row g m gen) (m ! (gen - 1)) buf
        = Some (row_spec g (carry_row g m gen) (m ! (gen - 1)))"
      using ok lc l1 lb by (rule ca1d_apply_row_eq)
    ultimately show ?thesis
      using z by (simp add: ca1d_apply_row_def)
  qed
  have r2: "m ! gen ! col =
      ca1d_rule_apply (rules g ! (col mod unat (rule_n g)))
        (m ! (gen - 1) ! left_nbr (width g) col) (m ! (gen - 1) ! col)
        (m ! (gen - 1) ! right_nbr (width g) col)
        (if reversible g \<and> 2 \<le> gen then m ! (gen - 2) ! col else 0)"
    if h: "1 \<le> gen \<and> gen < height g \<and> col < width g" for gen col
  proof -
    from h have "1 \<le> gen" and "gen < height g" and "col < width g" by simp_all
    from rows_upto_nth [OF m(3) this] z show ?thesis
      by (simp add: rule_sel_def fixed_rule_def)
  qed
  from m(1) r1 r2
  show "\<exists>m. ca1d_run g steps = Some m
           \<and> (\<forall>gen buf. 1 \<le> gen \<and> gen < height g \<and> length buf = width g \<longrightarrow>
                ca1d_rule_apply_row g (carry_row g m gen) (m ! (gen - 1)) buf
                  = Some (m ! gen))
           \<and> (\<forall>gen col. 1 \<le> gen \<and> gen < height g \<and> col < width g \<longrightarrow>
                m ! gen ! col =
                  ca1d_rule_apply (rules g ! (col mod unat (rule_n g)))
                    (m ! (gen - 1) ! left_nbr (width g) col) (m ! (gen - 1) ! col)
                    (m ! (gen - 1) ! right_nbr (width g) col)
                    (if reversible g \<and> 2 \<le> gen then m ! (gen - 2) ! col else 0))"
    by blast
qed

theorem meta_rule_zero_selection_witness:
  "meta_rule \<lparr>width = 2, height = 2, rule_n = 2, rules = 110 # 30 # replicate 254 0,
              reversible = False, meta_rule = 0, init = [0, 1]\<rparr> = 0
   \<and> ca1d_ok \<lparr>width = 2, height = 2, rule_n = 2, rules = 110 # 30 # replicate 254 0,
              reversible = False, meta_rule = 0, init = [0, 1]\<rparr>
   \<and> steps_ok \<lparr>width = 2, height = 2, rule_n = 2, rules = 110 # 30 # replicate 254 0,
              reversible = False, meta_rule = 0, init = [0, 1]\<rparr> [[0, 0], [0, 0]]
   \<and> (\<exists>m. ca1d_run
          \<lparr>width = 2, height = 2, rule_n = 2, rules = 110 # 30 # replicate 254 0,
           reversible = False, meta_rule = 0, init = [0, 1]\<rparr> [[0, 0], [0, 0]] = Some m
        \<and> ca1d_rule_apply_row
          \<lparr>width = 2, height = 2, rule_n = 2, rules = 110 # 30 # replicate 254 0,
           reversible = False, meta_rule = 0, init = [0, 1]\<rparr> [0, 0] (m ! 0) [0, 0]
          = Some (m ! 1)
        \<and> m ! 1 ! 1 = ca1d_rule_apply 30 (m ! 0 ! 0) (m ! 0 ! 1) (m ! 0 ! 0) 0)
   \<and> ca1d_meta_rule_apply_row
        \<lparr>width = 1, height = 2, rule_n = 2, rules = 110 # 30 # replicate 254 0,
         reversible = False, meta_rule = 0, init = [1]\<rparr> [0] [1] [0]
      = ca1d_rule_apply_row
        \<lparr>width = 1, height = 2, rule_n = 2, rules = 110 # 30 # replicate 254 0,
         reversible = False, meta_rule = 0, init = [1]\<rparr> [0] [1] [0]"
proof -
  let ?g = "\<lparr>width = 2, height = 2, rule_n = 2, rules = 110 # 30 # replicate 254 0,
              reversible = False, meta_rule = 0, init = [0, 1]\<rparr>"
  let ?g1 = "\<lparr>width = 1, height = 2, rule_n = 2, rules = 110 # 30 # replicate 254 0,
         reversible = False, meta_rule = 0, init = [1]\<rparr>"
  have z: "meta_rule ?g = 0" by simp
  have ok: "ca1d_ok ?g" by (simp add: ca1d_ok_def)
  have st: "steps_ok ?g [[0, 0], [0, 0]]" by (simp add: steps_ok_def)
  note t = meta_rule_zero_selection
    [where g = ?g and steps = "[[0, 0], [0, 0]]" and prev = "[0, 0]" and cur = "[0, 1]"
       and nxt = "[0, 0]" and rs = "[]" and cp = 0 and c = 0 and cn = 0]
  note t1 = meta_rule_zero_selection
    [where g = ?g1 and steps = "[[0], [0]]" and prev = "[0]" and cur = "[1]"
       and nxt = "[0]" and rs = "[]" and cp = 0 and c = 0 and cn = 0]
  from t1 have d: "ca1d_meta_rule_apply_row ?g1 [0] [1] [0] = ca1d_rule_apply_row ?g1 [0] [1] [0]"
    by simp
  from t z ok st obtain m where m: "ca1d_run ?g [[0, 0], [0, 0]] = Some m"
    and r: "\<forall>gen buf. 1 \<le> gen \<and> gen < height ?g \<and> length buf = width ?g \<longrightarrow>
                ca1d_rule_apply_row ?g (carry_row ?g m gen) (m ! (gen - 1)) buf
                  = Some (m ! gen)"
    and r2: "\<forall>gen col. 1 \<le> gen \<and> gen < height ?g \<and> col < width ?g \<longrightarrow>
                m ! gen ! col =
                  ca1d_rule_apply (rules ?g ! (col mod unat (rule_n ?g)))
                    (m ! (gen - 1) ! left_nbr (width ?g) col) (m ! (gen - 1) ! col)
                    (m ! (gen - 1) ! right_nbr (width ?g) col)
                    (if reversible ?g \<and> 2 \<le> gen then m ! (gen - 2) ! col else 0)"
    by blast
  have rep: "replicate 2 (0 :: u64) = [0, 0]"
    by (simp add: numeral_2_eq_2)
  from r [rule_format, of 1 "[0, 0]"]
  have a: "ca1d_rule_apply_row ?g [0, 0] (m ! 0) [0, 0] = Some (m ! 1)"
    by (simp add: carry_row_def rep)
  from r2 [rule_format, of 1 1]
  have b: "m ! 1 ! 1 = ca1d_rule_apply 30 (m ! 0 ! 0) (m ! 0 ! 1) (m ! 0 ! 0) 0"
    by (simp add: left_nbr_def right_nbr_def)
  from z ok st d m a b show ?thesis by simp
qed

section \<open>Parsing the rule string\<close>

lemma parse_loop_shift:
  "parse_loop g acc idx k s =
     (fst (parse_loop g acc idx 0 s), k + snd (parse_loop g acc idx 0 s))"
proof (induction s arbitrary: g acc idx k)
  case Nil
  show ?case by simp
next
  case (Cons c cs)
  have a: "parse_loop g' acc' idx' (Suc k') cs =
      (fst (parse_loop g' acc' idx' 0 cs), Suc (k' + snd (parse_loop g' acc' idx' 0 cs)))"
    for g' acc' idx' k'
    using Cons.IH [of g' acc' idx' "Suc k'"] by simp
  show ?case
    by (simp add: a)
qed

lemma snd_parse_loop_le: "snd (parse_loop g acc idx 0 s) \<le> length s"
proof (induction s arbitrary: g acc idx)
  case Nil
  show ?case by simp
next
  case (Cons c cs)
  show ?case
    using Cons.IH by (simp add: parse_loop_shift [of _ _ _ "Suc 0"])
qed

lemma parse_loop_recognized:
  "i < snd (parse_loop g acc idx 0 s) \<Longrightarrow> recognized (s ! i)"
proof (induction s arbitrary: g acc idx i)
  case Nil
  then show ?case by simp
next
  case (Cons c cs)
  show ?case
  proof (cases i)
    case 0
    with Cons.prems show ?thesis
      by (auto simp add: recognized_def split: if_splits)
  next
    case (Suc j)
    with Cons.prems Cons.IH [of j] show ?thesis
      by (auto simp add: parse_loop_shift [of _ _ _ "Suc 0"] split: if_splits)
  qed
qed

lemma parse_loop_stop_char:
  "snd (parse_loop g acc idx 0 s) < length s \<Longrightarrow>
     \<not> recognized (s ! snd (parse_loop g acc idx 0 s))
     \<or> is_digit (s ! snd (parse_loop g acc idx 0 s))"
proof (induction s arbitrary: g acc idx)
  case Nil
  then show ?case by simp
next
  case (Cons c cs)
  from Cons.prems Cons.IH show ?case
    by (auto simp add: parse_loop_shift [of _ _ _ "Suc 0"] recognized_def is_digit_def
        split: if_splits)
qed

lemma parse_loop_discard:
  "snd (parse_loop g acc idx 0 s) < length s \<Longrightarrow>
     parse_loop g acc idx k (take (Suc (snd (parse_loop g acc idx 0 s))) s @ rest)
       = parse_loop g acc idx k s"
proof (induction s arbitrary: g acc idx k)
  case Nil
  then show ?case by simp
next
  case (Cons c cs)
  from Cons.prems Cons.IH show ?case
    by (auto simp add: parse_loop_shift [of _ _ _ "Suc 0"] split: if_splits)
qed

lemma parse_loop_out_exit:
  "snd (parse_loop g acc idx 0 s) = length s
   \<or> (snd (parse_loop g acc idx 0 s) < length s
       \<and> (is_digit (s ! snd (parse_loop g acc idx 0 s))
            \<or> s ! snd (parse_loop g acc idx 0 s) = CHR 0x00)) \<Longrightarrow>
     parse_loop g acc idx k (take (snd (parse_loop g acc idx 0 s)) s)
       = parse_loop g acc idx k s"
proof (induction s arbitrary: g acc idx k)
  case Nil
  then show ?case by simp
next
  case (Cons c cs)
  from Cons.prems Cons.IH show ?case
    by (auto simp add: parse_loop_shift [of _ _ _ "Suc 0"] split: if_splits)
qed

lemma unat_acc_step:
  assumes "is_digit c"
  shows "unat (acc * 10 + of_nat (of_char c - 48) :: u8)
           = (unat acc * 10 + (of_char c - 48)) mod 256"
proof -
  from assms have "(of_char c :: nat) - 48 < 256"
    unfolding is_digit_def by arith
  then have "unat (of_nat (of_char c - 48) :: u8) = of_char c - 48"
    by (simp add: unat_of_nat)
  then show ?thesis
    by (simp add: unat_word_ariths mod_simps)
qed

lemma snd_parse_loop_spec_stop:
  "snd (parse_loop g acc idx 0 s) = spec_stop (unat acc) s"
proof (induction s arbitrary: g acc idx)
  case Nil
  show ?case by simp
next
  case (Cons c cs)
  have lt: "25 < acc \<longleftrightarrow> 25 < unat acc"
    by (simp add: word_less_nat_alt)
  consider (nul) "c = CHR 0x00" | (digit) "is_digit c"
    | (sep) "c = CHR '','' \<or> c = CHR '';''" | (space) "c = CHR '' ''"
    | (other) "c \<noteq> CHR 0x00" "\<not> recognized c"
    by (auto simp add: recognized_def)
  then show ?case
  proof cases
    case nul
    then show ?thesis by (simp add: is_digit_def)
  next
    case digit
    then have "c \<noteq> CHR 0x00" by (auto simp add: is_digit_def)
    with digit show ?thesis
      by (simp add: parse_loop_shift [of _ _ _ "Suc 0"] Cons.IH lt unat_acc_step)
  next
    case sep
    then have "c \<noteq> CHR 0x00" and "\<not> is_digit c" by (auto simp add: is_digit_def)
    with sep show ?thesis
      by (simp add: parse_loop_shift [of _ _ _ "Suc 0"] Cons.IH)
  next
    case space
    then have "c \<noteq> CHR 0x00" and "\<not> is_digit c" by (auto simp add: is_digit_def)
    with space show ?thesis
      by (simp add: parse_loop_shift [of _ _ _ "Suc 0"] Cons.IH)
  next
    case other
    then show ?thesis by (simp add: recognized_def)
  qed
qed

text \<open>
  At a character without a case of its own the function returns at once: the pending
  number is not stored and \<^verbatim>\<open>rule_n\<close> is not set.
\<close>

lemma parse_loop_default_returns:
  "c \<noteq> CHR 0x00 \<Longrightarrow> \<not> recognized c \<Longrightarrow> parse_loop g acc idx k (c # rest) = (g, k)"
  by (simp add: recognized_def)

text \<open>
  Claim C10, as stated, fails on the code in its last part: the characters consumed
  before the stopping point do not determine the resulting rule list. The strings
  \<open>30\<close> and \<open>30x\<close> have the same consumed characters; the first stores rule 30, the second
  returns at \<open>x\<close> and leaves the rule list as it was.
\<close>

theorem parse_rule_nums_consumed_counterexample:
  "consumed \<lparr>width = 1, height = 64, rule_n = 1, rules = 110 # replicate 255 0,
             reversible = False, meta_rule = 0, init = [1]\<rparr> ''30'' = 2
   \<and> consumed \<lparr>width = 1, height = 64, rule_n = 1, rules = 110 # replicate 255 0,
             reversible = False, meta_rule = 0, init = [1]\<rparr> ''30x'' = 2
   \<and> take 2 ''30x'' = take 2 ''30''
   \<and> rules (parse_rule_nums \<lparr>width = 1, height = 64, rule_n = 1,
             rules = 110 # replicate 255 0, reversible = False, meta_rule = 0,
             init = [1]\<rparr> ''30'') ! 0 = 30
   \<and> rules (parse_rule_nums \<lparr>width = 1, height = 64, rule_n = 1,
             rules = 110 # replicate 255 0, reversible = False, meta_rule = 0,
             init = [1]\<rparr> ''30x'') ! 0 = 110"
  by (simp add: consumed_def parse_rule_nums_def parse_out_def is_digit_def)

text \<open>
  Claim C10, amended. For every rule string, the loop of \<^verbatim>\<open>parse_rule_nums\<close> goes on at a
  digit met while the accumulator is at most 25 (the accumulator becomes ten times itself
  plus the digit, in eight bits), at a comma or semicolon (the accumulator is stored as
  the next rule and reset) and at a space; it stops at the first character that is not a
  digit, comma, semicolon or space, and leaves through \<^verbatim>\<open>out\<close> at a digit met while the
  accumulator is greater than 25 and at the end of the string, where the accumulator is
  stored and the rule count is set. The number of characters consumed is the stopping
  point \<open>spec_stop\<close>; every character consumed is a digit, comma, semicolon or space.
  When the loop stops inside the string, the result is the same for every continuation
  after the stopping character: the remainder is discarded. When the loop ends at the end
  of the string or at a digit, the result is that of the consumed characters alone.
\<close>

theorem parse_rule_nums_stops_early:
  "parse_loop g acc idx k [] = (parse_out g acc idx, k)
   \<and> rules (parse_out g acc idx) = (rules g)[unat idx := acc]
   \<and> rule_n (parse_out g acc idx) = idx + 1
   \<and> (is_digit c \<and> acc \<le> 25 \<longrightarrow>
        parse_loop g acc idx k (c # rest)
          = parse_loop g (acc * 10 + of_nat (of_char c - 48)) idx (k + 1) rest)
   \<and> (c = CHR '','' \<or> c = CHR '';'' \<longrightarrow>
        parse_loop g acc idx k (c # rest)
          = parse_loop (g\<lparr>rules := (rules g)[unat idx := acc]\<rparr>) 0 (idx + 1) (k + 1) rest)
   \<and> (c = CHR '' '' \<longrightarrow>
        parse_loop g acc idx k (c # rest) = parse_loop g acc idx (k + 1) rest)
   \<and> (c \<noteq> CHR 0x00 \<and> \<not> recognized c \<longrightarrow> snd (parse_loop g acc idx k (c # rest)) = k)
   \<and> (is_digit c \<and> 25 < acc \<longrightarrow>
        parse_loop g acc idx k (c # rest) = (parse_out g acc idx, k))
   \<and> consumed g s = spec_stop 0 s
   \<and> consumed g s \<le> length s
   \<and> (\<forall>i<consumed g s. recognized (s ! i))
   \<and> (consumed g s < length s \<longrightarrow>
        (\<not> recognized (s ! consumed g s) \<or> is_digit (s ! consumed g s))
        \<and> parse_rule_nums g (take (Suc (consumed g s)) s @ rest') = parse_rule_nums g s)
   \<and> (consumed g s = length s
        \<or> (consumed g s < length s \<and> is_digit (s ! consumed g s)) \<longrightarrow>
        parse_rule_nums g (take (consumed g s) s) = parse_rule_nums g s)"
proof (intro conjI impI allI)
  show "parse_loop g acc idx k [] = (parse_out g acc idx, k)"
    by simp
next
  show "rules (parse_out g acc idx) = (rules g)[unat idx := acc]"
    and "rule_n (parse_out g acc idx) = idx + 1"
    by (simp_all add: parse_out_def)
next
  assume a: "is_digit c \<and> acc \<le> 25"
  then have "c \<noteq> CHR 0x00"
    by (auto simp add: is_digit_def)
  moreover from a have "\<not> 25 < acc"
    by (simp add: not_less)
  ultimately show "parse_loop g acc idx k (c # rest)
      = parse_loop g (acc * 10 + of_nat (of_char c - 48)) idx (k + 1) rest"
    using a by simp
next
  assume "c = CHR '','' \<or> c = CHR '';''"
  then show "parse_loop g acc idx k (c # rest)
      = parse_loop (g\<lparr>rules := (rules g)[unat idx := acc]\<rparr>) 0 (idx + 1) (k + 1) rest"
    by (auto simp add: is_digit_def)
next
  assume "c = CHR '' ''"
  then show "parse_loop g acc idx k (c # rest) = parse_loop g acc idx (k + 1) rest"
    by (simp add: is_digit_def)
next
  assume "c \<noteq> CHR 0x00 \<and> \<not> recognized c"
  then have "c \<noteq> CHR 0x00" and "\<not> recognized c"
    by simp_all
  then have "parse_loop g acc idx k (c # rest) = (g, k)"
    by (rule parse_loop_default_returns)
  then show "snd (parse_loop g acc idx k (c # rest)) = k"
    by simp
next
  assume "is_digit c \<and> 25 < acc"
  moreover from this have "c \<noteq> CHR 0x00"
    by (auto simp add: is_digit_def)
  ultimately show "parse_loop g acc idx k (c # rest) = (parse_out g acc idx, k)"
    by simp
next
  show "consumed g s = spec_stop 0 s"
    unfolding consumed_def using snd_parse_loop_spec_stop [of g 0 0 s] by simp
next
  show "consumed g s \<le> length s"
    unfolding consumed_def by (rule snd_parse_loop_le)
next
  fix i assume "i < consumed g s"
  then show "recognized (s ! i)"
    unfolding consumed_def by (rule parse_loop_recognized)
next
  assume "consumed g s < length s"
  then show "\<not> recognized (s ! consumed g s) \<or> is_digit (s ! consumed g s)"
    unfolding consumed_def by (rule parse_loop_stop_char)
next
  assume "consumed g s < length s"
  then show "parse_rule_nums g (take (Suc (consumed g s)) s @ rest') = parse_rule_nums g s"
    unfolding consumed_def parse_rule_nums_def by (simp only: parse_loop_discard)
next
  assume "consumed g s = length s \<or> (consumed g s < length s \<and> is_digit (s ! consumed g s))"
  then have "parse_loop g 0 0 0 (take (snd (parse_loop g 0 0 0 s)) s) = parse_loop g 0 0 0 s"
    unfolding consumed_def by (intro parse_loop_out_exit) blast
  then show "parse_rule_nums g (take (consumed g s) s) = parse_rule_nums g s"
    unfolding consumed_def parse_rule_nums_def by simp
qed

theorem parse_rule_nums_stops_early_witness:
  "snd (parse_loop \<lparr>width = 1, height = 64, rule_n = 1, rules = 110 # replicate 255 0,
               reversible = False, meta_rule = 0, init = [1]\<rparr> 4 1 4 ''x5'') = 4
   \<and> parse_loop \<lparr>width = 1, height = 64, rule_n = 1, rules = 110 # replicate 255 0,
               reversible = False, meta_rule = 0, init = [1]\<rparr> 26 0 2 ''01,7''
     = (parse_out \<lparr>width = 1, height = 64, rule_n = 1, rules = 110 # replicate 255 0,
                   reversible = False, meta_rule = 0, init = [1]\<rparr> 26 0, 2)
   \<and> parse_loop \<lparr>width = 1, height = 64, rule_n = 1, rules = 110 # replicate 255 0,
               reversible = False, meta_rule = 0, init = [1]\<rparr> 10 0 2 ''0''
     = parse_loop \<lparr>width = 1, height = 64, rule_n = 1, rules = 110 # replicate 255 0,
               reversible = False, meta_rule = 0, init = [1]\<rparr> 100 0 3 ''''
   \<and> consumed \<lparr>width = 1, height = 64, rule_n = 1, rules = 110 # replicate 255 0,
               reversible = False, meta_rule = 0, init = [1]\<rparr> ''100'' = 3
   \<and> spec_stop 0 ''100'' = 3
   \<and> rules (parse_rule_nums \<lparr>width = 1, height = 64, rule_n = 1,
               rules = 110 # replicate 255 0, reversible = False, meta_rule = 0,
               init = [1]\<rparr> ''100'') ! 0 = 100
   \<and> consumed \<lparr>width = 1, height = 64, rule_n = 1, rules = 110 # replicate 255 0,
               reversible = False, meta_rule = 0, init = [1]\<rparr> ''30,4x5'' = 4
   \<and> recognized (CHR ''4'') \<and> \<not> recognized (CHR ''x'')
   \<and> parse_rule_nums \<lparr>width = 1, height = 64, rule_n = 1, rules = 110 # replicate 255 0,
               reversible = False, meta_rule = 0, init = [1]\<rparr> ''30,4x99''
     = parse_rule_nums \<lparr>width = 1, height = 64, rule_n = 1, rules = 110 # replicate 255 0,
               reversible = False, meta_rule = 0, init = [1]\<rparr> ''30,4x5''
   \<and> consumed \<lparr>width = 1, height = 64, rule_n = 1, rules = 110 # replicate 255 0,
               reversible = False, meta_rule = 0, init = [1]\<rparr> ''2601,7'' = 2
   \<and> parse_rule_nums \<lparr>width = 1, height = 64, rule_n = 1, rules = 110 # replicate 255 0,
               reversible = False, meta_rule = 0, init = [1]\<rparr> ''26''
     = parse_rule_nums \<lparr>width = 1, height = 64, rule_n = 1, rules = 110 # replicate 255 0,
               reversible = False, meta_rule = 0, init = [1]\<rparr> ''2601,7''"
proof -
  let ?g = "\<lparr>width = 1, height = 64, rule_n = 1, rules = 110 # replicate 255 0,
               reversible = False, meta_rule = 0, init = [1]\<rparr>"
  have n: "consumed ?g ''30,4x5'' = 4" and n2: "consumed ?g ''2601,7'' = 2"
    and n3: "consumed ?g ''100'' = 3"
    by (simp_all add: consumed_def is_digit_def)
  have v: "rules (parse_rule_nums ?g ''100'') ! 0 = 100"
    by (simp add: parse_rule_nums_def parse_out_def is_digit_def)
  have x: "\<not> recognized (CHR ''x'')" and d: "is_digit (CHR ''0'')" and f: "recognized (CHR ''4'')"
    by (simp_all add: recognized_def is_digit_def)
  note t1 = parse_rule_nums_stops_early
    [where c = "CHR ''x''" and g = ?g and acc = 4 and idx = 1 and k = 4 and rest = "''5''"
       and s = "''30,4x5''" and rest' = "''99''"]
  note t2 = parse_rule_nums_stops_early
    [where c = "CHR ''0''" and g = ?g and acc = 26 and idx = 0 and k = 2 and rest = "''1,7''"
       and s = "''2601,7''" and rest' = "[]"]
  note t3 = parse_rule_nums_stops_early
    [where c = "CHR ''0''" and g = ?g and acc = 10 and idx = 0 and k = 2 and rest = "[]"
       and s = "''100''" and rest' = "[]"]
  from t1 have u1: "CHR ''x'' \<noteq> CHR 0x00 \<and> \<not> recognized (CHR ''x'') \<longrightarrow>
      snd (parse_loop ?g 4 1 4 (CHR ''x'' # ''5'')) = 4"
    and u2: "consumed ?g ''30,4x5'' < length ''30,4x5'' \<longrightarrow>
        (\<not> recognized (''30,4x5'' ! consumed ?g ''30,4x5'')
           \<or> is_digit (''30,4x5'' ! consumed ?g ''30,4x5''))
        \<and> parse_rule_nums ?g (take (Suc (consumed ?g ''30,4x5'')) ''30,4x5'' @ ''99'')
            = parse_rule_nums ?g ''30,4x5''"
    by blast+
  from t2 have u3: "is_digit (CHR ''0'') \<and> 25 < (26 :: u8) \<longrightarrow>
        parse_loop ?g 26 0 2 (CHR ''0'' # ''1,7'') = (parse_out ?g 26 0, 2)"
    and u4: "consumed ?g ''2601,7'' = length ''2601,7''
        \<or> (consumed ?g ''2601,7'' < length ''2601,7''
            \<and> is_digit (''2601,7'' ! consumed ?g ''2601,7'')) \<longrightarrow>
        parse_rule_nums ?g (take (consumed ?g ''2601,7'') ''2601,7'')
          = parse_rule_nums ?g ''2601,7''"
    by blast+
  from t3 have u5: "is_digit (CHR ''0'') \<and> (10 :: u8) \<le> 25 \<longrightarrow>
        parse_loop ?g 10 0 2 (CHR ''0'' # [])
          = parse_loop ?g (10 * 10 + of_nat (of_char (CHR ''0'') - 48)) 0 (2 + 1) []"
    and u6: "consumed ?g ''100'' = spec_stop 0 ''100''"
    by blast+
  from u1 x have a: "snd (parse_loop ?g 4 1 4 ''x5'') = 4"
    by simp
  from u3 d have b: "parse_loop ?g 26 0 2 ''01,7'' = (parse_out ?g 26 0, 2)"
    by simp
  from u5 d have c: "parse_loop ?g 10 0 2 ''0'' = parse_loop ?g 100 0 3 []"
    by simp
  from u6 n3 have sp: "spec_stop 0 ''100'' = 3"
    by (simp only:)
  from u2 n
  have "parse_rule_nums ?g (take (Suc 4) ''30,4x5'' @ ''99'') = parse_rule_nums ?g ''30,4x5''"
    by simp
  then have e: "parse_rule_nums ?g ''30,4x99'' = parse_rule_nums ?g ''30,4x5''"
    by simp
  from u4 n2 d
  have "parse_rule_nums ?g (take 2 ''2601,7'') = parse_rule_nums ?g ''2601,7''"
    by simp
  then have h: "parse_rule_nums ?g ''26'' = parse_rule_nums ?g ''2601,7''"
    by simp
  from a b c sp n n2 n3 v x f e h show ?thesis by (simp only: simp_thms)
qed

end
